theory Spec2Isabelle
  imports Complex_Main "HOL-Library.Log_Nat"
begin

section \<open>Python arithmetic used by the chunk computation\<close>

text \<open>
  The worker computes its vertex range with \<^verbatim>\<open>int(chunk / total * len(bm.verts))\<close>.
  In Python 3 the operator \<^verbatim>\<open>/\<close> on two ints is true division: it returns the
  binary64 number nearest to the exact quotient (ties to even).  The product with the
  int \<^verbatim>\<open>len(bm.verts)\<close> converts that int to binary64 and rounds the exact product again;
  \<^verbatim>\<open>int()\<close> truncates toward zero.  Binary64 values are modelled as the rationals they
  denote, with 53 significant bits and an unbounded exponent range: no overflow and no
  subnormal numbers, which the values below do not reach for vertex counts under \<open>2^53\<close>
  and worker counts under \<open>2^1022\<close>.
\<close>

datatype py_error = ZeroDivisionError | IndexError | ValueError

text \<open>Rounding of a rational to the nearest integer, ties to the even neighbour.\<close>

definition round_half_even :: "rat \<Rightarrow> int" where
  "round_half_even x =
     (let f = \<lfloor>x\<rfloor>; r = x - of_int f
      in if r < 1 / 2 then f else if 1 / 2 < r then f + 1 else if even f then f else f + 1)"

text \<open>The binary exponent \<open>e\<close> of a positive rational: \<open>2^e \<le> x < 2^(e+1)\<close>.\<close>

definition binexp :: "rat \<Rightarrow> int" where
  "binexp x = (case quotient_of x of (a, b) \<Rightarrow>
     (let k = bitlen a - bitlen b in if 2 powi k \<le> x then k else k - 1))"

text \<open>Round to nearest binary64: 53 significant bits, ties to even.\<close>

definition round_binary64 :: "rat \<Rightarrow> rat" where
  "round_binary64 x =
     (if x = 0 then 0
      else let e = binexp \<bar>x\<bar> - 52
           in of_int (round_half_even (x / 2 powi e)) * 2 powi e)"


text \<open>\<^verbatim>\<open>a / b\<close> on ints, \<^verbatim>\<open>float(n)\<close>, \<^verbatim>\<open>x * y\<close> on floats, and \<^verbatim>\<open>int(x)\<close>.\<close>

definition py_truediv :: "int \<Rightarrow> int \<Rightarrow> py_error + rat" where
  "py_truediv a b =
     (if b = 0 then Inl ZeroDivisionError else Inr (round_binary64 (of_int a / of_int b)))"

definition py_float :: "int \<Rightarrow> rat" where
  "py_float n = round_binary64 (of_int n)"

definition py_float_mul :: "rat \<Rightarrow> rat \<Rightarrow> rat" where
  "py_float_mul x y = round_binary64 (x * y)"

definition py_int :: "rat \<Rightarrow> int" where
  "py_int x = (if 0 \<le> x then \<lfloor>x\<rfloor> else \<lceil>x\<rceil>)"


text \<open>\<^verbatim>\<open>max\<close> of a sequence of ints raises \<^verbatim>\<open>ValueError\<close> on the empty sequence.\<close>

fun py_max :: "int list \<Rightarrow> py_error + int" where
  "py_max [] = Inl ValueError"
| "py_max (x # xs) = Inr (fold max xs x)"

section \<open>Chunk bounds of \<^verbatim>\<open>MESH_OT_UpdateVertexNormals.worker\<close>\<close>

text \<open>
  \<^verbatim>\<open>first = int(chunk / total * len(bm.verts))\<close> and
  \<^verbatim>\<open>last = int((chunk + 1) / total * len(bm.verts))\<close>.
\<close>

definition chunk_bound :: "int \<Rightarrow> int \<Rightarrow> nat \<Rightarrow> py_error + int" where
  "chunk_bound c tot nverts =
     (case py_truediv c tot of
        Inl e \<Rightarrow> Inl e
      | Inr q \<Rightarrow> Inr (py_int (py_float_mul q (py_float (int nverts)))))"

definition chunk_first :: "int \<Rightarrow> int \<Rightarrow> nat \<Rightarrow> py_error + int" where
  "chunk_first chunk tot nverts = chunk_bound chunk tot nverts"

definition chunk_last :: "int \<Rightarrow> int \<Rightarrow> nat \<Rightarrow> py_error + int" where
  "chunk_last chunk tot nverts = chunk_bound (chunk + 1) tot nverts"

text \<open>The index list \<^verbatim>\<open>[i + first for i in range(last - first)]\<close> the worker iterates over.\<close>

definition chunk_indices :: "int \<Rightarrow> int \<Rightarrow> nat \<Rightarrow> py_error + int list" where
  "chunk_indices chunk tot nverts =
     (case chunk_first chunk tot nverts of
        Inl e \<Rightarrow> Inl e
      | Inr first_idx \<Rightarrow>
          (case chunk_last chunk tot nverts of
             Inl e \<Rightarrow> Inl e
           | Inr last_idx \<Rightarrow> Inr (map (\<lambda>i. int i + first_idx) [0..<nat (last_idx - first_idx)])))"

text \<open>The range the specification gives: \<open>[\<lfloor>i\<sqdot>V/total\<rfloor>, \<lfloor>(i+1)\<sqdot>V/total\<rfloor>)\<close>.\<close>

definition spec_first :: "int \<Rightarrow> int \<Rightarrow> nat \<Rightarrow> int" where
  "spec_first chunk tot nverts = (chunk * int nverts) div tot"

definition spec_last :: "int \<Rightarrow> int \<Rightarrow> nat \<Rightarrow> int" where
  "spec_last chunk tot nverts = ((chunk + 1) * int nverts) div tot"

section \<open>Vectors\<close>

text \<open>
  \<^verbatim>\<open>mathutils.Vector\<close> values of size three, over the reals: the rounding of the
  library's single-precision components is not part of this model.
  \<^verbatim>\<open>Vector.normalize()\<close> leaves a vector of length zero as the zero vector.
\<close>

type_synonym vec = "real \<times> real \<times> real"

definition vec_zero :: vec where
  "vec_zero = (0, 0, 0)"

fun vec_add :: "vec \<Rightarrow> vec \<Rightarrow> vec" where
  "vec_add (a, b, c) (x, y, z) = (a + x, b + y, c + z)"

fun vec_sub :: "vec \<Rightarrow> vec \<Rightarrow> vec" where
  "vec_sub (a, b, c) (x, y, z) = (a - x, b - y, c - z)"

fun vec_scale :: "real \<Rightarrow> vec \<Rightarrow> vec" where
  "vec_scale k (x, y, z) = (k * x, k * y, k * z)"

fun length_squared :: "vec \<Rightarrow> real" where
  "length_squared (x, y, z) = x * x + y * y + z * z"

definition vec_length :: "vec \<Rightarrow> real" where
  "vec_length v = sqrt (length_squared v)"

definition vec_normalize :: "vec \<Rightarrow> vec" where
  "vec_normalize v = (if vec_length v = 0 then vec_zero else vec_scale (1 / vec_length v) v)"


section \<open>Mesh data\<close>

record bmface =
  face_index :: nat
  face_normal :: vec

record bmloop =
  loop_index :: nat
  loop_face :: bmface
  calc_angle :: real

record bmvert =
  vert_index :: nat
  co :: vec
  select :: bool
  link_loops :: "bmloop list"

text \<open>The custom data layers, keyed by element index; a layer holds a value for every element.\<close>

record layers =
  face_normal_influence :: "nat \<Rightarrow> int"
  vertex_normal_weight :: "nat \<Rightarrow> int"
  loop_normal_x :: "nat \<Rightarrow> real"
  loop_normal_y :: "nat \<Rightarrow> real"
  loop_normal_z :: "nat \<Rightarrow> real"

datatype VertexNormalWeight = UNIFORM | ANGLE | AREA | COMBINED | UNWEIGHTED

record preferences =
  use_linked_face_weights :: bool
  link_angle :: real
  use_auto_smooth :: bool
  smooth_angle :: real
  use_flat_faces :: bool

text \<open>
  The modules \<^verbatim>\<open>types\<close> and \<^verbatim>\<open>utils\<close> of the add-on are not part of the sources at hand.
  What the operators use of them is a parameter of the model: the integer value of each
  \<^verbatim>\<open>VertexNormalWeight\<close> member, the \<^verbatim>\<open>get\<close> method of the two face area caches (a
  memoised, hence pure, function of the face), \<^verbatim>\<open>utils.split_loops\<close> and
  \<^verbatim>\<open>utils.loop_space_transform\<close> (whose third argument defaults to \<^verbatim>\<open>False\<close>).
\<close>

record helpers =
  weight_value :: "VertexNormalWeight \<Rightarrow> int"
  FaceAreaCache_get :: "bmface \<Rightarrow> real"
  LinkedFaceAreaCache_get :: "real \<Rightarrow> bmface \<Rightarrow> real"
  split_loops :: "bmvert \<Rightarrow> real \<Rightarrow> bool \<Rightarrow> bmloop list list"
  loop_space_transform :: "bmloop \<Rightarrow> vec \<Rightarrow> bool \<Rightarrow> vec"

section \<open>\<^verbatim>\<open>MESH_OT_UpdateVertexNormals.worker\<close>\<close>

definition area_cache :: "helpers \<Rightarrow> preferences \<Rightarrow> bmface \<Rightarrow> real" where
  "area_cache H P =
     (if use_linked_face_weights P then LinkedFaceAreaCache_get H (link_angle P)
      else FaceAreaCache_get H)"


definition influence :: "layers \<Rightarrow> bmloop \<Rightarrow> int" where
  "influence L loop = face_normal_influence L (face_index (loop_face loop))"

text \<open>The body of each \<^verbatim>\<open>for loop in loop_subgroup: vn_local += ...\<close>, from the zero vector.\<close>

definition accumulate :: "(bmloop \<Rightarrow> vec) \<Rightarrow> bmloop list \<Rightarrow> vec" where
  "accumulate f loops = fold (\<lambda>loop vn. vec_add vn (f loop)) loops vec_zero"

definition stored_loop_normal :: "layers \<Rightarrow> bmloop \<Rightarrow> vec" where
  "stored_loop_normal L loop =
     (loop_normal_x L (loop_index loop), loop_normal_y L (loop_index loop),
      loop_normal_z L (loop_index loop))"

text \<open>The \<^verbatim>\<open>if\<close>/\<^verbatim>\<open>elif\<close> chain over the vertex normal weight; no branch leaves the zero vector.\<close>

definition average_normals ::
  "helpers \<Rightarrow> preferences \<Rightarrow> layers \<Rightarrow> int \<Rightarrow> bmloop list \<Rightarrow> vec" where
  "average_normals H P L w loop_subgroup =
     (if w = weight_value H UNIFORM then
        accumulate (\<lambda>loop. face_normal (loop_face loop)) loop_subgroup
      else if w = weight_value H ANGLE then
        accumulate (\<lambda>loop. vec_scale (calc_angle loop) (face_normal (loop_face loop)))
          loop_subgroup
      else if w = weight_value H AREA then
        accumulate (\<lambda>loop. vec_scale (area_cache H P (loop_face loop))
          (face_normal (loop_face loop))) loop_subgroup
      else if w = weight_value H COMBINED then
        accumulate (\<lambda>loop. vec_scale (calc_angle loop * area_cache H P (loop_face loop))
          (face_normal (loop_face loop))) loop_subgroup
      else if w = weight_value H UNWEIGHTED then
        accumulate (\<lambda>loop. loop_space_transform H loop (stored_loop_normal L loop) True)
          loop_subgroup
      else vec_zero)"

text \<open>\<^verbatim>\<open>loop_subgroup\<close>: the loops of the group whose face has the greatest influence.\<close>

definition loop_subgroup_of :: "layers \<Rightarrow> int \<Rightarrow> bmloop list \<Rightarrow> bmloop list" where
  "loop_subgroup_of L influence_max loop_group =
     filter (\<lambda>loop. influence L loop = influence_max) loop_group"

text \<open>The normal of one shading group: \<^verbatim>\<open>vn_local\<close> after \<^verbatim>\<open>vn_local.normalize()\<close>.\<close>

definition group_normal ::
  "helpers \<Rightarrow> preferences \<Rightarrow> layers \<Rightarrow> int \<Rightarrow> bmloop list \<Rightarrow> py_error + vec" where
  "group_normal H P L w loop_group =
     (case py_max (map (influence L) loop_group) of
        Inl e \<Rightarrow> Inl e
      | Inr influence_max \<Rightarrow>
          Inr (vec_normalize (average_normals H P L w (loop_subgroup_of L influence_max loop_group))))"

text \<open>\<^verbatim>\<open>for loop in loop_group: out[loop.index] = vn_local\<close>.\<close>

fun write_normals :: "vec list \<Rightarrow> bmloop list \<Rightarrow> vec \<Rightarrow> py_error + vec list" where
  "write_normals out [] vn = Inr out"
| "write_normals out (loop # loops) vn =
     (if loop_index loop < length out
      then write_normals (out[loop_index loop := vn]) loops vn
      else Inl IndexError)"

definition process_group ::
  "helpers \<Rightarrow> preferences \<Rightarrow> layers \<Rightarrow> int \<Rightarrow> vec list \<Rightarrow> bmloop list \<Rightarrow> py_error + vec list" where
  "process_group H P L w out loop_group =
     (case group_normal H P L w loop_group of
        Inl e \<Rightarrow> Inl e
      | Inr vn_local \<Rightarrow> write_normals out loop_group vn_local)"






section \<open>\<^verbatim>\<open>MESH_OT_MergeVertexNormals.execute\<close>\<close>

text \<open>
  Vertex coordinates and the merge distance are reals.  \<^verbatim>\<open>int(x // d)\<close> is the floor of the
  quotient; the division raises \<^verbatim>\<open>ZeroDivisionError\<close> for \<open>d = 0\<close>, which the callers below
  test before they use \<open>cell_key\<close>.
\<close>

fun cell_key :: "real \<Rightarrow> vec \<Rightarrow> int \<times> int \<times> int" where
  "cell_key d (x, y, z) = (\<lfloor>x / d\<rfloor>, \<lfloor>y / d\<rfloor>, \<lfloor>z / d\<rfloor>)"

text \<open>The dictionary \<^verbatim>\<open>cells\<close>: three nested dictionaries, then a list of vertices.\<close>

type_synonym cells = "int \<rightharpoonup> (int \<rightharpoonup> (int \<rightharpoonup> bmvert list))"

definition cells_insert :: "real \<Rightarrow> cells \<Rightarrow> bmvert \<Rightarrow> cells" where
  "cells_insert d cells v =
     (case cell_key d (co v) of (x, y, z) \<Rightarrow>
        let cells_x = (case cells x of None \<Rightarrow> Map.empty | Some m \<Rightarrow> m);
            cells_xy = (case cells_x y of None \<Rightarrow> Map.empty | Some m \<Rightarrow> m);
            cells_xyz = (case cells_xy z of None \<Rightarrow> [] | Some vs \<Rightarrow> vs)
        in cells(x \<mapsto> cells_x(y \<mapsto> cells_xy(z \<mapsto> cells_xyz @ [v]))))"

fun build_cells :: "real \<Rightarrow> cells \<Rightarrow> bmvert list \<Rightarrow> py_error + cells" where
  "build_cells d cells [] = Inr cells"
| "build_cells d cells (v # vs) =
     (if d = 0 then Inl ZeroDivisionError else build_cells d (cells_insert d cells v) vs)"

text \<open>
  What \<^verbatim>\<open>if i in cells and j in cells[i] and k in cells[i][j]\<close> lets
  \<^verbatim>\<open>nearby_verts.extend(cells[i][j][k])\<close> add.
\<close>

definition cells_lookup :: "cells \<Rightarrow> int \<Rightarrow> int \<Rightarrow> int \<Rightarrow> bmvert list" where
  "cells_lookup cells i j k =
     (case cells i of
        None \<Rightarrow> []
      | Some cells_i \<Rightarrow>
          (case cells_i j of
             None \<Rightarrow> []
           | Some cells_ij \<Rightarrow> (case cells_ij k of None \<Rightarrow> [] | Some vs \<Rightarrow> vs)))"

definition nearby_verts :: "real \<Rightarrow> cells \<Rightarrow> vec \<Rightarrow> bmvert list" where
  "nearby_verts d cells c =
     (case cell_key d c of (x, y, z) \<Rightarrow>
        concat (map (\<lambda>i.
          concat (map (\<lambda>j.
            concat (map (\<lambda>k. cells_lookup cells i j k) [z - 1, z, z + 1]))
            [y - 1, y, y + 1]))
          [x - 1, x, x + 1]))"

definition mergeable_verts :: "real \<Rightarrow> cells \<Rightarrow> bmvert \<Rightarrow> bmvert list" where
  "mergeable_verts d cells v_curr =
     filter (\<lambda>v. length_squared (vec_sub (co v) (co v_curr)) \<le> d ^ 2)
       (nearby_verts d cells (co v_curr))"

text \<open>
  The snapshot \<^verbatim>\<open>loop_normals\<close> is a flat list of floats, three for each loop.  The seed's
  normals are read by index (\<^verbatim>\<open>IndexError\<close> out of range), the normals that are averaged by
  the slice \<^verbatim>\<open>loop_normals[idx:idx + 3]\<close>, which is shorter than three out of range, and
  which \<^verbatim>\<open>mathutils\<close> then refuses with \<^verbatim>\<open>ValueError\<close>.
\<close>

definition snapshot_tuple :: "real list \<Rightarrow> bmloop \<Rightarrow> py_error + vec" where
  "snapshot_tuple loop_normals loop =
     (if loop_index loop * 3 + 2 < length loop_normals
      then Inr (loop_normals ! (loop_index loop * 3), loop_normals ! (loop_index loop * 3 + 1),
                loop_normals ! (loop_index loop * 3 + 2))
      else Inl IndexError)"

definition snapshot_slice :: "real list \<Rightarrow> bmloop \<Rightarrow> py_error + vec" where
  "snapshot_slice loop_normals loop =
     (if loop_index loop * 3 + 3 \<le> length loop_normals
      then Inr (loop_normals ! (loop_index loop * 3), loop_normals ! (loop_index loop * 3 + 1),
                loop_normals ! (loop_index loop * 3 + 2))
      else Inl ValueError)"

fun seed_normals :: "real list \<Rightarrow> bmloop list \<Rightarrow> py_error + vec list" where
  "seed_normals loop_normals [] = Inr []"
| "seed_normals loop_normals (loop # loops) =
     (case snapshot_tuple loop_normals loop of
        Inl e \<Rightarrow> Inl e
      | Inr n \<Rightarrow>
          (case seed_normals loop_normals loops of
             Inl e \<Rightarrow> Inl e
           | Inr ns \<Rightarrow> Inr (n # ns)))"

text \<open>\<^verbatim>\<open>v_curr_normal_count\<close>: the size of the set of the seed's loop normals.\<close>

definition v_curr_normal_count :: "real list \<Rightarrow> bmvert \<Rightarrow> py_error + nat" where
  "v_curr_normal_count loop_normals v_curr =
     (case seed_normals loop_normals (link_loops v_curr) of
        Inl e \<Rightarrow> Inl e
      | Inr ns \<Rightarrow> Inr (length (remdups ns)))"

text \<open>\<^verbatim>\<open>vn\<close>: the sum of the snapshot normals of the loops of one vertex, before normalising.\<close>

fun sum_loop_normals :: "real list \<Rightarrow> vec \<Rightarrow> bmloop list \<Rightarrow> py_error + vec" where
  "sum_loop_normals loop_normals vn [] = Inr vn"
| "sum_loop_normals loop_normals vn (loop # loops) =
     (case snapshot_slice loop_normals loop of
        Inl e \<Rightarrow> Inl e
      | Inr n \<Rightarrow> sum_loop_normals loop_normals (vec_add vn n) loops)"

text \<open>\<^verbatim>\<open>vn_local\<close>: the sum of the normalised \<^verbatim>\<open>vn\<close> of the vertices, before normalising.\<close>

fun sum_vertex_normals :: "real list \<Rightarrow> vec \<Rightarrow> bmvert list \<Rightarrow> py_error + vec" where
  "sum_vertex_normals loop_normals vn_local [] = Inr vn_local"
| "sum_vertex_normals loop_normals vn_local (v # vs) =
     (case sum_loop_normals loop_normals vec_zero (link_loops v) of
        Inl e \<Rightarrow> Inl e
      | Inr vn \<Rightarrow> sum_vertex_normals loop_normals (vec_add vn_local (vec_normalize vn)) vs)"

definition merged_normal :: "real list \<Rightarrow> bmvert list \<Rightarrow> py_error + vec" where
  "merged_normal loop_normals mergeable =
     (case sum_vertex_normals loop_normals vec_zero mergeable of
        Inl e \<Rightarrow> Inl e
      | Inr vn_local \<Rightarrow> Inr (vec_normalize vn_local))"

text \<open>The writes of the assignment loop, on the layers.\<close>

definition assign_loop :: "helpers \<Rightarrow> vec \<Rightarrow> bmloop \<Rightarrow> layers \<Rightarrow> layers" where
  "assign_loop H vn_local loop L =
     (case loop_space_transform H loop vn_local False of (x, y, z) \<Rightarrow>
        L\<lparr>loop_normal_x := (loop_normal_x L)(loop_index loop := x),
          loop_normal_y := (loop_normal_y L)(loop_index loop := y),
          loop_normal_z := (loop_normal_z L)(loop_index loop := z)\<rparr>)"

definition assign_vertex :: "helpers \<Rightarrow> vec \<Rightarrow> bmvert \<Rightarrow> layers \<Rightarrow> layers" where
  "assign_vertex H vn_local v L =
     fold (assign_loop H vn_local) (link_loops v)
       (L\<lparr>vertex_normal_weight :=
            (vertex_normal_weight L)(vert_index v := weight_value H UNWEIGHTED)\<rparr>)"

definition assign_merged :: "helpers \<Rightarrow> vec \<Rightarrow> bmvert list \<Rightarrow> layers \<Rightarrow> layers" where
  "assign_merged H vn_local mergeable L = fold (assign_vertex H vn_local) mergeable L"

text \<open>
  One pass of the body of \<^verbatim>\<open>while selected_verts\<close> after \<^verbatim>\<open>v_curr\<close> was popped.  It returns
  the layers, the cluster \<^verbatim>\<open>mergeable_verts\<close> and the merged normal \<^verbatim>\<open>vn_local\<close>.
\<close>

definition merge_iteration ::
  "helpers \<Rightarrow> real \<Rightarrow> cells \<Rightarrow> real list \<Rightarrow> layers \<Rightarrow> bmvert \<Rightarrow>
   py_error + (layers \<times> bmvert list \<times> vec)" where
  "merge_iteration H d cells loop_normals L v_curr =
     (case v_curr_normal_count loop_normals v_curr of
        Inl e \<Rightarrow> Inl e
      | Inr normal_count \<Rightarrow>
          if d = 0 then Inl ZeroDivisionError
          else
            (case merged_normal loop_normals (mergeable_verts d cells v_curr) of
               Inl e \<Rightarrow> Inl e
             | Inr vn_local \<Rightarrow>
                 Inr (if 1 < normal_count \<or> 1 < length (mergeable_verts d cells v_curr)
                      then assign_merged H vn_local (mergeable_verts d cells v_curr) L
                      else L,
                      mergeable_verts d cells v_curr, vn_local)))"

text \<open>
  The set \<^verbatim>\<open>selected_verts\<close> is a list without repetition.  \<^verbatim>\<open>set.pop()\<close> removes an element
  that the program does not choose: the function \<open>pick\<close> picks its position, and every
  statement below holds for every \<open>pick\<close>.
\<close>

definition set_pop :: "('a list \<Rightarrow> nat) \<Rightarrow> 'a list \<Rightarrow> 'a" where
  "set_pop pick xs = xs ! (pick xs mod length xs)"

definition difference_update :: "'a list \<Rightarrow> 'a list \<Rightarrow> 'a list" where
  "difference_update xs ys = filter (\<lambda>x. x \<notin> set ys) xs"

text \<open>
  The loop \<^verbatim>\<open>while selected_verts\<close>.  Beside the layers it returns, for each pass in order, the
  seed, its cluster and the merged normal.
\<close>

function merge_loop ::
  "(bmvert list \<Rightarrow> nat) \<Rightarrow> helpers \<Rightarrow> real \<Rightarrow> cells \<Rightarrow> real list \<Rightarrow> layers \<Rightarrow>
   bmvert list \<Rightarrow> py_error + (layers \<times> (bmvert \<times> bmvert list \<times> vec) list)" where
  "merge_loop pick H d cells loop_normals L selected_verts =
     (if selected_verts = [] then Inr (L, [])
      else
        (case merge_iteration H d cells loop_normals L (set_pop pick selected_verts) of
           Inl e \<Rightarrow> Inl e
         | Inr (L', mergeable, vn_local) \<Rightarrow>
             (case merge_loop pick H d cells loop_normals L'
                     (difference_update
                        (removeAll (set_pop pick selected_verts) selected_verts)
                        (filter select mergeable)) of
                Inl e \<Rightarrow> Inl e
              | Inr (L'', passes) \<Rightarrow>
                  Inr (L'', (set_pop pick selected_verts, mergeable, vn_local) # passes))))"
  by pat_completeness auto
termination
proof (relation "measure (\<lambda>(pick, H, d, cells, loop_normals, L, selected_verts).
    length selected_verts)")
  show "wf (measure (\<lambda>(pick, H, d, cells, loop_normals, L, selected_verts).
    length (selected_verts :: bmvert list)))"
    by simp
next
  fix pick :: "bmvert list \<Rightarrow> nat" and H :: helpers and d :: real and cells :: cells
    and loop_normals :: "real list" and L :: layers and selected_verts :: "bmvert list"
    and x :: "layers \<times> bmvert list \<times> vec" and L' :: layers
    and y :: "bmvert list \<times> vec" and mergeable :: "bmvert list" and vn_local :: vec
  assume ne: "selected_verts \<noteq> []"
  then have "set_pop pick selected_verts \<in> set selected_verts"
    by (simp add: set_pop_def)
  then have "length (removeAll (set_pop pick selected_verts) selected_verts)
      < length selected_verts"
    by (rule length_removeAll_less)
  moreover have "length (difference_update
       (removeAll (set_pop pick selected_verts) selected_verts) (filter select mergeable))
      \<le> length (removeAll (set_pop pick selected_verts) selected_verts)"
    by (simp add: difference_update_def)
  ultimately show "((pick, H, d, cells, loop_normals, L',
      difference_update (removeAll (set_pop pick selected_verts) selected_verts)
        (filter select mergeable)),
     (pick, H, d, cells, loop_normals, L, selected_verts))
    \<in> measure (\<lambda>(pick, H, d, cells, loop_normals, L, selected_verts).
        length selected_verts)"
    by simp
qed

declare merge_loop.simps [simp del]

text \<open>
  \<^verbatim>\<open>execute\<close> up to the end of the loop: the set of selected vertices, the cells of the
  vertices to index, the loop.  The set of selected vertices is listed in the order of
  \<^verbatim>\<open>bm.verts\<close>.
\<close>

definition merge_execute ::
  "(bmvert list \<Rightarrow> nat) \<Rightarrow> helpers \<Rightarrow> real \<Rightarrow> bool \<Rightarrow> bmvert list \<Rightarrow> real list \<Rightarrow> layers \<Rightarrow>
   py_error + (layers \<times> (bmvert \<times> bmvert list \<times> vec) list)" where
  "merge_execute pick H distance unselected bm loop_normals L =
     (case build_cells distance Map.empty
             (if unselected then bm else remdups (filter select bm)) of
        Inl e \<Rightarrow> Inl e
      | Inr cells \<Rightarrow>
          merge_loop pick H distance cells loop_normals L (remdups (filter select bm)))"

text \<open>
  Readings of the result of a run: the vertex indices of the cluster of each pass, the
  loop normal the layers hold for a loop at the end, and the weight of a vertex at the end.
\<close>

definition pass_clusters ::
  "py_error + (layers \<times> (bmvert \<times> bmvert list \<times> vec) list) \<Rightarrow> py_error + nat list list" where
  "pass_clusters r =
     (case r of
        Inl e \<Rightarrow> Inl e
      | Inr (L, passes) \<Rightarrow>
          Inr (map (\<lambda>(v_curr, mergeable, vn_local). map vert_index mergeable) passes))"

definition final_loop_normal ::
  "py_error + (layers \<times> (bmvert \<times> bmvert list \<times> vec) list) \<Rightarrow> bmloop \<Rightarrow> py_error + vec" where
  "final_loop_normal r loop =
     (case r of Inl e \<Rightarrow> Inl e | Inr (L, passes) \<Rightarrow> Inr (stored_loop_normal L loop))"

definition final_weight ::
  "py_error + (layers \<times> (bmvert \<times> bmvert list \<times> vec) list) \<Rightarrow> nat \<Rightarrow> py_error + int" where
  "final_weight r i =
     (case r of Inl e \<Rightarrow> Inl e | Inr (L, passes) \<Rightarrow> Inr (vertex_normal_weight L i))"

section \<open>Concrete meshes\<close>

text \<open>
  Small inputs on which the statements below are instantiated.  The helpers give the
  weights the values 0 to 4, give the face of index 0 the area 1 and every other face the
  area 3, put all loops of a vertex into one shading group, and transform nothing.
\<close>

definition example_helpers :: helpers where
  "example_helpers =
     \<lparr>weight_value =
        (\<lambda>w. case w of UNIFORM \<Rightarrow> 0 | ANGLE \<Rightarrow> 1 | AREA \<Rightarrow> 2 | COMBINED \<Rightarrow> 3 | UNWEIGHTED \<Rightarrow> 4),
      FaceAreaCache_get = (\<lambda>f. if face_index f = 0 then 1 else 3),
      LinkedFaceAreaCache_get = (\<lambda>angle f. if face_index f = 0 then 1 else 3),
      split_loops = (\<lambda>v angle flat. if link_loops v = [] then [] else [link_loops v]),
      loop_space_transform = (\<lambda>loop vn inverse_flag. vn)\<rparr>"

definition example_preferences :: preferences where
  "example_preferences =
     \<lparr>use_linked_face_weights = False, link_angle = 0, use_auto_smooth = False,
      smooth_angle = 0, use_flat_faces = False\<rparr>"

text \<open>
  Three vertices.  The first has AREA weight and three loops, on faces of normal
  \<open>(1, 0, 0)\<close> and \<open>(0, 1, 0)\<close> with influence 1 and on a face of normal \<open>(0, 0, 1)\<close> with
  influence 0.  The second has UNIFORM weight and two loops on faces of opposite normals.
  The third has no loop.
\<close>

definition example_layers :: layers where
  "example_layers =
     \<lparr>face_normal_influence = (\<lambda>i. if i < 2 then 1 else 0),
      vertex_normal_weight = (\<lambda>i. if i = 0 then 2 else 0),
      loop_normal_x = (\<lambda>i. 0), loop_normal_y = (\<lambda>i. 0), loop_normal_z = (\<lambda>i. 0)\<rparr>"

definition example_loop :: "nat \<Rightarrow> nat \<Rightarrow> vec \<Rightarrow> bmloop" where
  "example_loop i f n =
     \<lparr>loop_index = i, loop_face = \<lparr>face_index = f, face_normal = n\<rparr>, calc_angle = 1\<rparr>"


text \<open>A selected vertex at the given place, with the given loops.\<close>

definition selected_vert :: "nat \<Rightarrow> vec \<Rightarrow> bmloop list \<Rightarrow> bmvert" where
  "selected_vert i c loops = \<lparr>vert_index = i, co = c, select = True, link_loops = loops\<rparr>"

text \<open>\<^verbatim>\<open>set.pop()\<close> taking the first element of the list.\<close>

definition pick_first :: "bmvert list \<Rightarrow> nat" where
  "pick_first xs = 0"

text \<open>Three selected vertices on a line, one unit apart; each has one loop.\<close>

definition line_v0 :: bmvert where
  "line_v0 = selected_vert 0 (0, 0, 0) [example_loop 0 0 (1, 0, 0)]"

definition line_v1 :: bmvert where
  "line_v1 = selected_vert 1 (1, 0, 0) [example_loop 1 1 (0, 1, 0)]"

definition line_v2 :: bmvert where
  "line_v2 = selected_vert 2 (2, 0, 0) [example_loop 2 2 (0, 0, 1)]"

definition line_bm :: "bmvert list" where
  "line_bm = [line_v0, line_v1, line_v2]"

definition line_loop_normals :: "real list" where
  "line_loop_normals = [1, 0, 0, 0, 1, 0, 0, 0, 1]"

text \<open>
  Four selected vertices without loops: one at \<open>(0, 12, 0)\<close>, then the origin and its two
  neighbours at distance 10 on the first axis.
\<close>

definition cross_v0 :: bmvert where
  "cross_v0 = selected_vert 0 (0, 12, 0) []"

definition cross_v1 :: bmvert where
  "cross_v1 = selected_vert 1 (0, 0, 0) []"

definition cross_v2 :: bmvert where
  "cross_v2 = selected_vert 2 (- 10, 0, 0) []"

definition cross_v3 :: bmvert where
  "cross_v3 = selected_vert 3 (10, 0, 0) []"

definition cross_bm :: "bmvert list" where
  "cross_bm = [cross_v0, cross_v1, cross_v2, cross_v3]"

text \<open>Two selected vertices at the same place, each with one loop on the same face.\<close>

definition twin_v0 :: bmvert where
  "twin_v0 = selected_vert 0 (0, 0, 0) [example_loop 0 0 (1, 0, 0)]"

definition twin_v1 :: bmvert where
  "twin_v1 = selected_vert 1 (0, 0, 0) [example_loop 1 0 (1, 0, 0)]"

definition twin_bm :: "bmvert list" where
  "twin_bm = [twin_v0, twin_v1]"

definition twin_loop_normals :: "real list" where
  "twin_loop_normals = [1, 0, 0, 1, 0, 0]"

text \<open>A single selected vertex without loops.\<close>

definition loose_vert :: bmvert where
  "loose_vert = selected_vert 0 (0, 0, 0) []"

section \<open>Rounding to binary64\<close>

lemma round_half_even_of_int: "round_half_even (of_int n) = n"
  by (simp add: round_half_even_def)

lemma round_half_even_bounds: "\<lfloor>x\<rfloor> \<le> round_half_even x" "round_half_even x \<le> \<lfloor>x\<rfloor> + 1"
  by (simp_all add: round_half_even_def Let_def)

lemma round_half_even_mono:
  assumes "x \<le> y"
  shows "round_half_even x \<le> round_half_even y"
proof (cases "\<lfloor>x\<rfloor> = \<lfloor>y\<rfloor>")
  case True
  with assms show ?thesis
    by (auto simp: round_half_even_def Let_def)
next
  case False
  with assms have "\<lfloor>x\<rfloor> + 1 \<le> \<lfloor>y\<rfloor>"
    using floor_mono [of x y] by linarith
  with round_half_even_bounds(2) [of x] round_half_even_bounds(1) [of y]
  show ?thesis by linarith
qed

lemma bitlen_powi_bounds:
  assumes "0 < a"
  shows "(2::rat) powi (bitlen a - 1) \<le> of_int a" "of_int a < (2::rat) powi (bitlen a)"
proof -
  from assms have "1 \<le> bitlen a" by (simp add: bitlen_ge_iff_power)
  then have pos: "0 < bitlen a" by simp
  from bitlen_bounds [OF assms]
  have lo: "2 ^ nat (bitlen a - 1) \<le> a" and hi: "a < 2 ^ nat (bitlen a)" by simp_all
  from lo have "(of_int (2 ^ nat (bitlen a - 1)) :: rat) \<le> of_int a"
    by (simp only: of_int_le_iff)
  with pos show "(2::rat) powi (bitlen a - 1) \<le> of_int a"
    by (simp add: power_int_def)
  from hi have "(of_int a :: rat) < of_int (2 ^ nat (bitlen a))"
    by (simp only: of_int_less_iff)
  with pos show "of_int a < (2::rat) powi (bitlen a)"
    by (simp add: power_int_def)
qed

lemma binexp_bounds:
  assumes "0 < x"
  shows "2 powi (binexp x) \<le> x" "x < 2 powi (binexp x + 1)"
proof -
  obtain a b where q: "quotient_of x = (a, b)" by (cases "quotient_of x")
  then have b: "0 < b" and x: "x = of_int a / of_int b"
    by (simp_all add: quotient_of_denom_pos quotient_of_div)
  with assms have a: "0 < a" by (simp add: zero_less_divide_iff)
  define k where "k = bitlen a - bitlen b"
  have Pb: "(0::rat) < 2 powi (bitlen b - 1)" and Pa: "(0::rat) < 2 powi (bitlen a - 1)"
    by (simp_all add: power_int_def)
  have bPb: "(0::rat) < of_int b * 2 powi (bitlen b - 1)"
    and bQb: "(0::rat) < 2 powi (bitlen b) * of_int b"
    using b by (simp_all add: zero_less_mult_iff)
  have hi: "x < 2 powi (k + 1)"
  proof -
    have "x \<le> of_int a / 2 powi (bitlen b - 1)"
      unfolding x
      using bitlen_powi_bounds(1) [OF b] _ bPb by (rule divide_left_mono) (use a in simp)
    also have "\<dots> < 2 powi (bitlen a) / 2 powi (bitlen b - 1)"
      by (rule divide_strict_right_mono) (use bitlen_powi_bounds(2) [OF a] Pb in simp_all)
    also have "\<dots> = 2 powi (bitlen a - (bitlen b - 1))"
      by (simp add: power_int_diff)
    also have "bitlen a - (bitlen b - 1) = k + 1" by (simp add: k_def)
    finally show ?thesis .
  qed
  have lo: "2 powi (k - 1) \<le> x"
  proof -
    have "(2::rat) powi (k - 1) = 2 powi (bitlen a - 1 - bitlen b)" by (simp add: k_def algebra_simps)
    also have "\<dots> = 2 powi (bitlen a - 1) / 2 powi (bitlen b)"
      by (simp add: power_int_diff)
    also have "\<dots> \<le> of_int a / 2 powi (bitlen b)"
      by (rule divide_right_mono) (use bitlen_powi_bounds(1) [OF a] in simp_all)
    also have "\<dots> \<le> x"
      unfolding x
      using less_imp_le [OF bitlen_powi_bounds(2) [OF b]] _ bQb
      by (rule divide_left_mono) (use a in simp)
    finally show ?thesis .
  qed
  have e: "binexp x = (if 2 powi k \<le> x then k else k - 1)"
    by (simp add: binexp_def q k_def Let_def)
  show "2 powi (binexp x) \<le> x" using lo by (simp add: e)
  show "x < 2 powi (binexp x + 1)" using hi by (simp add: e)
qed

lemma powi2_less_imp_less:
  assumes "(2::rat) powi m < 2 powi n"
  shows "m < n"
proof (rule ccontr)
  assume "\<not> m < n"
  then have "(2::rat) powi n \<le> 2 powi m" by (intro power_int_increasing) simp_all
  with assms show False by simp
qed

lemma binexp_mono:
  assumes "0 < x" "x \<le> y"
  shows "binexp x \<le> binexp y"
proof -
  have "(2::rat) powi (binexp x) < 2 powi (binexp y + 1)"
    using binexp_bounds(1) [OF assms(1)] binexp_bounds(2) [of y] assms by linarith
  then have "binexp x < binexp y + 1"
    by (rule powi2_less_imp_less)
  then show ?thesis by simp
qed

lemma binexp_unique:
  assumes "2 powi e \<le> x" "x < 2 powi (e + 1)"
  shows "binexp x = e"
proof -
  have pos: "0 < x" using assms(1) by (rule less_le_trans [rotated]) simp
  have "(2::rat) powi (binexp x) < 2 powi (e + 1)"
    using binexp_bounds [OF pos] assms by linarith
  then have 1: "binexp x < e + 1" by (rule powi2_less_imp_less)
  have "(2::rat) powi e < 2 powi (binexp x + 1)"
    using binexp_bounds [OF pos] assms by linarith
  then have "e < binexp x + 1" by (rule powi2_less_imp_less)
  with 1 show ?thesis by simp
qed
lemma round_binary64_zero: "round_binary64 0 = 0"
  by (simp add: round_binary64_def)

lemma powi2_split: "(2::rat) powi e = 2 ^ 52 * 2 powi (e - 52)" "(2::rat) powi (e + 1) = 2 ^ 53 * 2 powi (e - 52)"
proof -
  have "(2::rat) powi e = 2 powi (52 + (e - 52))" by simp
  also have "\<dots> = 2 powi 52 * 2 powi (e - 52)" by (rule power_int_add) simp
  finally show "(2::rat) powi e = 2 ^ 52 * 2 powi (e - 52)" by simp
  have "e + 1 = 53 + (e - 52)" by simp
  then have "(2::rat) powi (e + 1) = 2 powi (53 + (e - 52))" by (rule arg_cong)
  also have "\<dots> = 2 powi 53 * 2 powi (e - 52)" by (rule power_int_add) simp
  finally show "(2::rat) powi (e + 1) = 2 ^ 53 * 2 powi (e - 52)" by simp
qed

lemma round_binary64_binade:
  assumes "0 < x"
  shows "2 powi (binexp x) \<le> round_binary64 x" "round_binary64 x \<le> 2 powi (binexp x + 1)"
proof -
  define P :: rat where "P = 2 powi (binexp x - 52)"
  have P: "0 < P" by (simp add: P_def)
  have rd: "round_binary64 x = of_int (round_half_even (x / P)) * P"
    using assms by (simp add: round_binary64_def P_def Let_def)
  have "2 ^ 52 * P \<le> x" "x \<le> 2 ^ 53 * P"
    using binexp_bounds [OF assms] powi2_split [of "binexp x"] by (simp_all add: P_def)
  then have "of_int (2 ^ 52) \<le> x / P" "x / P \<le> of_int (2 ^ 53)"
    using P by (simp_all add: pos_le_divide_eq pos_divide_le_eq)
  then have "round_half_even (of_int (2 ^ 52)) \<le> round_half_even (x / P)"
    "round_half_even (x / P) \<le> round_half_even (of_int (2 ^ 53))"
    by (simp_all only: round_half_even_mono)
  then have "2 ^ 52 \<le> round_half_even (x / P)" "round_half_even (x / P) \<le> 2 ^ 53"
    by (simp_all only: round_half_even_of_int)
  then have "(of_int (2 ^ 52) :: rat) \<le> of_int (round_half_even (x / P))"
    "(of_int (round_half_even (x / P)) :: rat) \<le> of_int (2 ^ 53)"
    by (simp_all only: of_int_le_iff)
  then have "2 ^ 52 * P \<le> of_int (round_half_even (x / P)) * P"
    "of_int (round_half_even (x / P)) * P \<le> 2 ^ 53 * P"
    using P by (simp_all add: mult_le_cancel_right)
  then show "2 powi (binexp x) \<le> round_binary64 x" "round_binary64 x \<le> 2 powi (binexp x + 1)"
    unfolding rd powi2_split [of "binexp x"] P_def by simp_all
qed

lemma round_binary64_nonneg: "0 \<le> x \<Longrightarrow> 0 \<le> round_binary64 x"
proof (cases "x = 0")
  case False
  assume "0 \<le> x"
  with False have "0 < x" by simp
  from round_binary64_binade(1) [OF this] show ?thesis
    by (rule order_trans [rotated]) simp
qed (simp add: round_binary64_zero)

lemma round_binary64_mono:
  assumes "0 \<le> x" "x \<le> y"
  shows "round_binary64 x \<le> round_binary64 y"
proof (cases "x = 0")
  case True
  with assms show ?thesis by (simp add: round_binary64_zero round_binary64_nonneg)
next
  case False
  with assms have x: "0 < x" and y: "0 < y" by simp_all
  have le: "binexp x \<le> binexp y" using x assms(2) by (rule binexp_mono)
  show ?thesis
  proof (cases "binexp x = binexp y")
    case True
    define P :: rat where "P = 2 powi (binexp y - 52)"
    have P: "0 < P" by (simp add: P_def)
    from assms(2) P have "x / P \<le> y / P" by (simp add: divide_right_mono)
    then have "round_half_even (x / P) \<le> round_half_even (y / P)"
      by (rule round_half_even_mono)
    then have "(of_int (round_half_even (x / P)) :: rat) * P \<le> of_int (round_half_even (y / P)) * P"
      using P by (simp add: mult_le_cancel_right)
    then show ?thesis
      using x y True by (simp add: round_binary64_def P_def Let_def)
  next
    case False
    with le have "binexp x + 1 \<le> binexp y" by simp
    then have "(2::rat) powi (binexp x + 1) \<le> 2 powi (binexp y)"
      by (rule power_int_increasing) simp
    with round_binary64_binade(2) [OF x] round_binary64_binade(1) [OF y]
    show ?thesis by linarith
  qed
qed

lemma round_binary64_of_nat:
  assumes "n < 2 ^ 53"
  shows "round_binary64 (of_nat n) = of_nat n"
proof (cases "n = 0")
  case True
  then show ?thesis by (simp add: round_binary64_zero)
next
  case False
  define x :: rat where "x = of_nat n"
  define e where "e = binexp x"
  from False have x: "1 \<le> x" by (simp add: x_def)
  then have pos: "0 < x" by simp
  from assms have "x < of_nat (2 ^ 53)" unfolding x_def by (simp only: of_nat_less_iff)
  then have "x < 2 powi 53" by simp
  with binexp_bounds(1) [OF pos] have "(2::rat) powi e < 2 powi 53" by (simp add: e_def)
  then have e53: "e < 53" by (rule powi2_less_imp_less)
  define s where "s = nat (52 - e)"
  have g: "e - 52 = - int s" using e53 by (simp add: s_def)
  have P: "(2::rat) powi (e - 52) = inverse (2 ^ s)"
    unfolding g by (simp add: power_int_minus)
  have "x / 2 powi (e - 52) = of_int (int n * 2 ^ s)"
    unfolding P by (simp add: x_def divide_inverse)
  then have "round_half_even (x / 2 powi (e - 52)) = int n * 2 ^ s"
    by (simp only: round_half_even_of_int)
  then have "round_binary64 x = of_int (int n * 2 ^ s) * inverse (2 ^ s)"
    using pos by (simp add: round_binary64_def e_def [symmetric] P Let_def)
  then show ?thesis by (simp add: x_def)
qed

subsection \<open>Chunk bounds\<close>

lemma py_int_nonneg: "0 \<le> x \<Longrightarrow> py_int x = \<lfloor>x\<rfloor>"
  by (simp add: py_int_def)

lemma round_binary64_one: "round_binary64 1 = 1"
  using round_binary64_of_nat [of 1] by simp

lemma py_float_exact: "n < 2 ^ 53 \<Longrightarrow> py_float (int n) = of_nat n"
  using round_binary64_of_nat [of n] by (simp add: py_float_def)

lemma py_float_nonneg: "0 \<le> py_float (int n)"
  by (simp add: py_float_def round_binary64_nonneg)

lemma chunk_bound_value:
  "tot \<noteq> 0 \<Longrightarrow>
   chunk_bound c tot n =
     Inr (py_int (py_float_mul (round_binary64 (of_int c / of_int tot)) (py_float (int n))))"
  by (simp add: chunk_bound_def py_truediv_def)

lemma chunk_bound_zero: "tot \<noteq> 0 \<Longrightarrow> chunk_bound 0 tot n = Inr 0"
  by (simp add: chunk_bound_value py_float_mul_def round_binary64_zero py_int_def)

lemma chunk_bound_total:
  assumes "tot \<noteq> 0" "n < 2 ^ 53"
  shows "chunk_bound tot tot n = Inr (int n)"
proof -
  have "py_float_mul (round_binary64 (of_int tot / of_int tot)) (py_float (int n)) = of_nat n"
    using assms round_binary64_of_nat [of n]
    by (simp add: py_float_mul_def round_binary64_one py_float_exact)
  then show ?thesis using assms(1) by (simp add: chunk_bound_value py_int_def)
qed

lemma bound_value_mono:
  assumes "0 < tot" "0 \<le> i" "i \<le> j"
  shows "py_int (py_float_mul (round_binary64 (of_int i / of_int tot)) (py_float (int n)))
       \<le> py_int (py_float_mul (round_binary64 (of_int j / of_int tot)) (py_float (int n)))"
proof -
  define qi :: rat where "qi = round_binary64 (of_int i / of_int tot)"
  define qj :: rat where "qj = round_binary64 (of_int j / of_int tot)"
  define F :: rat where "F = py_float (int n)"
  have F: "0 \<le> F" by (simp add: F_def py_float_nonneg)
  have frac: "(0::rat) \<le> of_int i / of_int tot" "(of_int i :: rat) / of_int tot \<le> of_int j / of_int tot"
    using assms by (simp_all add: divide_right_mono)
  then have qi: "0 \<le> qi" and qij: "qi \<le> qj"
    unfolding qi_def qj_def by (simp_all add: round_binary64_nonneg round_binary64_mono)
  from qi qij F have prod: "0 \<le> qi * F" "qi * F \<le> qj * F"
    by (simp_all add: mult_right_mono)
  then have r: "0 \<le> round_binary64 (qi * F)" "round_binary64 (qi * F) \<le> round_binary64 (qj * F)"
    by (simp_all add: round_binary64_nonneg round_binary64_mono)
  then have "\<lfloor>round_binary64 (qi * F)\<rfloor> \<le> \<lfloor>round_binary64 (qj * F)\<rfloor>"
    by (simp add: floor_mono)
  with r show ?thesis
    unfolding qi_def [symmetric] qj_def [symmetric] F_def [symmetric] py_float_mul_def
    by (simp add: py_int_def)
qed

lemma chunk_bound_mono:
  assumes "0 < tot" "0 \<le> i" "i \<le> j"
  obtains a b where "chunk_bound i tot n = Inr a" "chunk_bound j tot n = Inr b" "a \<le> b"
  using assms bound_value_mono [OF assms, of n] by (simp add: chunk_bound_value)

lemma chunk_bound_nonneg:
  assumes "0 < tot" "0 \<le> i" "chunk_bound i tot n = Inr a"
  shows "0 \<le> a"
proof -
  from chunk_bound_mono [OF assms(1) order_refl assms(2), of n]
  obtain z b where "chunk_bound 0 tot n = Inr z" "chunk_bound i tot n = Inr b" "z \<le> b" .
  with assms show ?thesis by (simp add: chunk_bound_zero)
qed

lemma range_comprehension: "map (\<lambda>i. int i + f) [0..<n] = [f..f + int n - 1]"
proof (induction n)
  case 0
  show ?case by simp
next
  case (Suc n)
  have "[f..f + int (Suc n) - 1] = [f..f + int n - 1] @ [f + int n]"
    using upto_rec2 [of f "f + int n"] by simp
  with Suc show ?case by simp
qed

lemma chunk_indices_value:
  assumes "chunk_bound c tot n = Inr a" "chunk_bound (c + 1) tot n = Inr b"
  shows "chunk_indices c tot n = Inr [a..b - 1]"
proof (cases "a \<le> b")
  case True
  then have "a + int (nat (b - a)) - 1 = b - 1" by simp
  with assms show ?thesis
    by (simp add: chunk_indices_def chunk_first_def chunk_last_def range_comprehension)
next
  case False
  with assms show ?thesis
    by (simp add: chunk_indices_def chunk_first_def chunk_last_def)
qed

lemma mono_sequence_partition:
  fixes B :: "int \<Rightarrow> int"
  assumes mono: "\<And>i j. 0 \<le> i \<Longrightarrow> i \<le> j \<Longrightarrow> j \<le> m \<Longrightarrow> B i \<le> B j"
    and v: "B 0 \<le> v" "v < B m" and m: "0 < m"
  shows "\<exists>!i. 0 \<le> i \<and> i < m \<and> B i \<le> v \<and> v < B (i + 1)"
proof -
  define S where "S = {i. 0 \<le> i \<and> i < m \<and> B i \<le> v}"
  have "S \<subseteq> {0..<m}" by (auto simp: S_def)
  then have fin: "finite S" by (rule finite_subset) simp
  have "0 \<in> S" using v m by (simp add: S_def)
  then have ne: "S \<noteq> {}" by auto
  define k where "k = Max S"
  have kS: "k \<in> S" unfolding k_def using fin ne by (rule Max_in)
  have "v < B (k + 1)"
  proof (cases "k + 1 < m")
    case True
    have "k + 1 \<notin> S"
    proof
      assume "k + 1 \<in> S"
      with fin have "k + 1 \<le> Max S" by (rule Max_ge)
      then show False by (simp add: k_def)
    qed
    with True kS show ?thesis by (simp add: S_def)
  next
    case False
    with kS have "k + 1 = m" by (simp add: S_def)
    with v show ?thesis by simp
  qed
  with kS have ex: "0 \<le> k \<and> k < m \<and> B k \<le> v \<and> v < B (k + 1)" by (simp add: S_def)
  have uniq: "i = j" if i: "0 \<le> i \<and> i < m \<and> B i \<le> v \<and> v < B (i + 1)"
    and j: "0 \<le> j \<and> j < m \<and> B j \<le> v \<and> v < B (j + 1)" for i j
  proof (rule ccontr)
    assume "i \<noteq> j"
    then consider "i + 1 \<le> j" | "j + 1 \<le> i" by linarith
    then show False
    proof cases
      case 1
      with i j have "B (i + 1) \<le> B j" by (intro mono) simp_all
      with i j show False by simp
    next
      case 2
      with i j have "B (j + 1) \<le> B i" by (intro mono) simp_all
      with i j show False by simp
    qed
  qed
  from ex uniq show ?thesis by blast
qed


lemma chunk_bound_le_total:
  assumes "0 < tot" "n < 2 ^ 53" "0 \<le> i" "i \<le> tot" "chunk_bound i tot n = Inr a"
  shows "a \<le> int n"
proof -
  from chunk_bound_mono [OF assms(1) assms(3) assms(4), of n]
  obtain a' b where "chunk_bound i tot n = Inr a'" "chunk_bound tot tot n = Inr b" "a' \<le> b" .
  with assms show ?thesis by (simp add: chunk_bound_total)
qed

lemma scenario_D_bounds:
  "chunk_bound 0 4 4000 = Inr 0" "chunk_bound 1 4 4000 = Inr 1000"
  "chunk_bound 2 4 4000 = Inr 2000" "chunk_bound 3 4 4000 = Inr 3000"
  "chunk_bound 4 4 4000 = Inr 4000"
  by code_simp+

section \<open>Partitioning of the vertices among the workers\<close>

text \<open>
  C1, as stated, fails.  With ten workers and ninety vertices, worker 6 ends and worker 7
  starts at \<^verbatim>\<open>int(7 / 10 * 90)\<close>, which is 62: the binary64 quotient \<^verbatim>\<open>7 / 10\<close> lies below
  seven tenths and its product with 90 rounds to a number below 63.  The floor
  \<open>\<lfloor>7\<sqdot>90/10\<rfloor>\<close> of the specification is 63.
\<close>

theorem chunk_bounds_counterexample:
  "chunk_last 6 10 90 = Inr 62 \<and> chunk_first 7 10 90 = Inr 62 \<and>
   spec_last 6 10 90 = 63 \<and> spec_first 7 10 90 = 63"
  unfolding chunk_first_def chunk_last_def spec_first_def spec_last_def
  by (intro conjI; code_simp)

text \<open>
  C1, amended.  For \<open>tot \<ge> 1\<close> workers and a vertex count below \<open>2^53\<close>, worker \<open>i\<close>
  processes the index range from \<^verbatim>\<open>int(i / total * V)\<close> up to, and not including,
  \<^verbatim>\<open>int((i + 1) / total * V)\<close>, both computed in binary64 arithmetic.  The first range starts
  at 0, the last one ends at \<open>V\<close>, each range ends where the next one starts, no range is
  reversed, and every vertex index below \<open>V\<close> lies in the range of exactly one worker.  For
  four workers and 4000 vertices the bounds are 0, 1000, 2000, 3000 and 4000.
\<close>

theorem chunk_ranges_partition:
  assumes "1 \<le> tot" "nverts < 2 ^ 53"
  shows "chunk_first 0 tot nverts = Inr 0 \<and>
    chunk_last (tot - 1) tot nverts = Inr (int nverts) \<and>
    (\<forall>i. chunk_last i tot nverts = chunk_first (i + 1) tot nverts) \<and>
    (\<forall>i. 0 \<le> i \<and> i < tot \<longrightarrow>
       (\<exists>a b. chunk_first i tot nverts = Inr a \<and> chunk_last i tot nverts = Inr b \<and>
          0 \<le> a \<and> a \<le> b \<and> b \<le> int nverts \<and>
          chunk_indices i tot nverts = Inr [a..b - 1])) \<and>
    (\<forall>v. 0 \<le> v \<and> v < int nverts \<longrightarrow>
       (\<exists>!i. 0 \<le> i \<and> i < tot \<and>
          (\<exists>idxs. chunk_indices i tot nverts = Inr idxs \<and> v \<in> set idxs))) \<and>
    map (\<lambda>i. (chunk_first i 4 4000, chunk_last i 4 4000)) [0, 1, 2, 3] =
      [(Inr 0, Inr 1000), (Inr 1000, Inr 2000), (Inr 2000, Inr 3000), (Inr 3000, Inr 4000)]"
proof -
  from assms have tot: "0 < tot" "tot \<noteq> 0" by simp_all
  define B where
    "B i = py_int (py_float_mul (round_binary64 (of_int i / of_int tot)) (py_float (int nverts)))"
    for i
  have val: "chunk_bound i tot nverts = Inr (B i)" for i
    using tot by (simp add: chunk_bound_value B_def)
  have B0: "B 0 = 0" using chunk_bound_zero [OF tot(2), of nverts] by (simp add: val)
  have Bm: "B tot = int nverts"
    using chunk_bound_total [OF tot(2) assms(2)] by (simp add: val)
  have mono: "B i \<le> B j" if "0 \<le> i" "i \<le> j" for i j
    unfolding B_def using tot(1) that by (rule bound_value_mono)
  have idx: "chunk_indices i tot nverts = Inr [B i..B (i + 1) - 1]" for i
    by (rule chunk_indices_value) (rule val)+
  have first: "chunk_first 0 tot nverts = Inr 0"
    by (simp add: chunk_first_def val B0)
  have last: "chunk_last (tot - 1) tot nverts = Inr (int nverts)"
    by (simp add: chunk_last_def val Bm)
  have contiguous: "\<forall>i. chunk_last i tot nverts = chunk_first (i + 1) tot nverts"
    by (simp add: chunk_first_def chunk_last_def)
  have ranges: "\<forall>i. 0 \<le> i \<and> i < tot \<longrightarrow>
       (\<exists>a b. chunk_first i tot nverts = Inr a \<and> chunk_last i tot nverts = Inr b \<and>
          0 \<le> a \<and> a \<le> b \<and> b \<le> int nverts \<and>
          chunk_indices i tot nverts = Inr [a..b - 1])"
  proof (intro allI impI)
    fix i assume i: "0 \<le> i \<and> i < tot"
    then have "0 \<le> B i" "B i \<le> B (i + 1)" "B (i + 1) \<le> int nverts"
      using mono [of 0 i] mono [of i "i + 1"] mono [of "i + 1" tot] by (simp_all add: B0 Bm)
    then show "\<exists>a b. chunk_first i tot nverts = Inr a \<and> chunk_last i tot nverts = Inr b \<and>
          0 \<le> a \<and> a \<le> b \<and> b \<le> int nverts \<and> chunk_indices i tot nverts = Inr [a..b - 1]"
      by (simp add: chunk_first_def chunk_last_def val idx)
  qed
  have cover: "\<forall>v. 0 \<le> v \<and> v < int nverts \<longrightarrow>
       (\<exists>!i. 0 \<le> i \<and> i < tot \<and>
          (\<exists>idxs. chunk_indices i tot nverts = Inr idxs \<and> v \<in> set idxs))"
  proof (intro allI impI)
    fix v assume v: "0 \<le> v \<and> v < int nverts"
    have "\<exists>!i. 0 \<le> i \<and> i < tot \<and> B i \<le> v \<and> v < B (i + 1)"
      using v by (intro mono_sequence_partition mono) (simp_all add: B0 Bm tot)
    moreover have "(\<exists>idxs. chunk_indices i tot nverts = Inr idxs \<and> v \<in> set idxs)
        \<longleftrightarrow> B i \<le> v \<and> v < B (i + 1)" for i
      by (auto simp: idx)
    ultimately show "\<exists>!i. 0 \<le> i \<and> i < tot \<and>
          (\<exists>idxs. chunk_indices i tot nverts = Inr idxs \<and> v \<in> set idxs)"
      by simp
  qed
  have scenario: "map (\<lambda>i. (chunk_first i 4 4000, chunk_last i 4 4000)) [0, 1, 2, 3] =
      [(Inr 0, Inr 1000), (Inr 1000, Inr 2000), (Inr 2000, Inr 3000), (Inr 3000, Inr 4000)]"
    by (simp add: chunk_first_def chunk_last_def scenario_D_bounds)
  from first last contiguous ranges cover scenario show ?thesis by blast
qed

theorem chunk_ranges_partition_witness:
  "(1::int) \<le> 10 \<and> (90::nat) < 2 ^ 53 \<and>
   chunk_first 0 10 90 = Inr 0 \<and> chunk_last 9 10 90 = Inr 90 \<and>
   chunk_last 6 10 90 = chunk_first 7 10 90 \<and>
   (\<exists>!i. 0 \<le> i \<and> i < 10 \<and> (\<exists>idxs. chunk_indices i 10 90 = Inr idxs \<and> 62 \<in> set idxs))"
proof -
  have h: "(1::int) \<le> 10" "(90::nat) < 2 ^ 53" by simp_all
  from chunk_ranges_partition [OF h]
  have "chunk_first 0 10 90 = Inr 0" "chunk_last (10 - 1) 10 90 = Inr (int 90)"
    "chunk_last 6 10 90 = chunk_first (6 + 1) 10 90"
    "(0::int) \<le> 62 \<and> 62 < int 90 \<longrightarrow>
      (\<exists>!i. 0 \<le> i \<and> i < 10 \<and> (\<exists>idxs. chunk_indices i 10 90 = Inr idxs \<and> 62 \<in> set idxs))"
    by blast+
  with h show ?thesis by simp
qed

section \<open>Chunked and single execution of the worker\<close>









section \<open>Aggregation of the normals of a shading group\<close>

lemma py_max_Max: "xs \<noteq> [] \<Longrightarrow> py_max xs = Inr (Max (set xs))"
proof (cases xs)
  case Nil
  assume "xs \<noteq> []"
  with Nil show ?thesis by simp
next
  case (Cons x ys)
  have "fold max ys x = Max (set (x # ys))" by (rule Max.set_eq_fold [symmetric])
  with Cons show ?thesis by (simp only: py_max.simps)
qed

lemma py_max_insert:
  assumes "xs @ ys \<noteq> []" "x \<le> Max (set (xs @ ys))"
  shows "py_max (xs @ x # ys) = Inr (Max (set (xs @ ys)))"
proof -
  have "set (xs @ x # ys) = insert x (set (xs @ ys))" by auto
  moreover have "set (xs @ ys) \<noteq> {}" using assms(1) by simp
  ultimately have "Max (set (xs @ x # ys)) = max x (Max (set (xs @ ys)))"
    using Max_insert [of "set (xs @ ys)" x] by simp
  with assms(2) have "Max (set (xs @ x # ys)) = Max (set (xs @ ys))" by (simp add: max_def)
  moreover have "py_max (xs @ x # ys) = Inr (Max (set (xs @ x # ys)))"
    by (rule py_max_Max) simp
  ultimately show ?thesis by simp
qed



lemma normalize_zero_length: "vec_length v = 0 \<Longrightarrow> vec_normalize v = vec_zero"
  by (simp add: vec_normalize_def)

lemma write_normals_fold:
  assumes "\<forall>loop \<in> set loops. loop_index loop < length out"
  shows "write_normals out loops vn =
    Inr (fold (\<lambda>loop buf. buf[loop_index loop := vn]) loops out)"
  using assms by (induction loops arbitrary: out) simp_all

lemma length_fold_update:
  "length (fold (\<lambda>loop buf. buf[loop_index loop := vn]) loops out) = length out"
  by (induction loops arbitrary: out) simp_all

lemma nth_fold_update:
  assumes "i < length out"
  shows "fold (\<lambda>loop buf. buf[loop_index loop := vn]) loops out ! i =
    (if i \<in> loop_index ` set loops then vn else out ! i)"
  using assms
proof (induction loops arbitrary: out)
  case Nil
  show ?case by simp
next
  case (Cons l loops)
  then show ?case by (auto simp: nth_list_update)
qed

lemma group_normal_value:
  assumes "loop_group \<noteq> []"
  shows "group_normal H P L w loop_group =
    Inr (vec_normalize (average_normals H P L w
      (loop_subgroup_of L (Max (influence L ` set loop_group)) loop_group)))"
  using assms by (simp add: group_normal_def py_max_Max)

lemma example_influence:
  "influence example_layers (example_loop i f n) = (if f < 2 then 1 else 0)"
  by (simp add: influence_def example_layers_def example_loop_def)

text \<open>
  C3.  In a shading group (a list of loops that is not empty) the greatest influence \<open>m\<close>
  of the faces is found, and the aggregated normal is computed from the loops whose face has
  influence \<open>m\<close> alone, whatever the weight \<open>w\<close> of the vertex.  A loop added anywhere in the
  group whose face has an influence below \<open>m\<close> leaves the aggregated normal as it is; one
  whose face has influence \<open>m\<close> joins the contributing loops, at its place.
\<close>

theorem only_greatest_influence_contributes:
  assumes "loop_group \<noteq> []"
  shows "\<exists>m. py_max (map (influence L) loop_group) = Inr m \<and>
    (\<forall>loop \<in> set loop_group. influence L loop \<le> m) \<and>
    (\<exists>loop \<in> set loop_group. influence L loop = m) \<and>
    group_normal H P L w loop_group =
      Inr (vec_normalize (average_normals H P L w (loop_subgroup_of L m loop_group))) \<and>
    set (loop_subgroup_of L m loop_group) = {loop \<in> set loop_group. influence L loop = m} \<and>
    (\<forall>xs l ys. loop_group = xs @ ys \<and> influence L l < m \<longrightarrow>
       loop_subgroup_of L m (xs @ l # ys) = loop_subgroup_of L m loop_group \<and>
       group_normal H P L w (xs @ l # ys) = group_normal H P L w loop_group) \<and>
    (\<forall>xs l ys. loop_group = xs @ ys \<and> influence L l = m \<longrightarrow>
       py_max (map (influence L) (xs @ l # ys)) = Inr m \<and>
       loop_subgroup_of L m (xs @ l # ys) =
         loop_subgroup_of L m xs @ l # loop_subgroup_of L m ys)"
proof -
  define m where "m = Max (influence L ` set loop_group)"
  have fin: "finite (influence L ` set loop_group)" and ne: "influence L ` set loop_group \<noteq> {}"
    using assms by simp_all
  have mx: "py_max (map (influence L) loop_group) = Inr m"
    using assms by (simp add: py_max_Max m_def)
  have le: "\<forall>loop \<in> set loop_group. influence L loop \<le> m"
    using fin by (simp add: m_def)
  have "m \<in> influence L ` set loop_group" unfolding m_def using fin ne by (rule Max_in)
  then have ex: "\<exists>loop \<in> set loop_group. influence L loop = m" by auto
  have gn: "group_normal H P L w loop_group =
      Inr (vec_normalize (average_normals H P L w (loop_subgroup_of L m loop_group)))"
    unfolding m_def using assms by (rule group_normal_value)
  have sub: "set (loop_subgroup_of L m loop_group) = {loop \<in> set loop_group. influence L loop = m}"
    by (simp add: loop_subgroup_of_def)
  have ins: "py_max (map (influence L) (xs @ l # ys)) = Inr m"
    if "loop_group = xs @ ys" "influence L l \<le> m" for xs l ys
  proof -
    have "py_max (map (influence L) xs @ influence L l # map (influence L) ys) =
        Inr (Max (set (map (influence L) xs @ map (influence L) ys)))"
      using assms that by (intro py_max_insert) (simp_all add: m_def image_Un)
    then show ?thesis using that(1) by (simp add: m_def image_Un)
  qed
  have lower: "\<forall>xs l ys. loop_group = xs @ ys \<and> influence L l < m \<longrightarrow>
       loop_subgroup_of L m (xs @ l # ys) = loop_subgroup_of L m loop_group \<and>
       group_normal H P L w (xs @ l # ys) = group_normal H P L w loop_group"
  proof (intro allI impI)
    fix xs l ys assume a: "loop_group = xs @ ys \<and> influence L l < m"
    then have s: "loop_subgroup_of L m (xs @ l # ys) = loop_subgroup_of L m loop_group"
      by (simp add: loop_subgroup_of_def)
    from a have "py_max (map (influence L) (xs @ l # ys)) = Inr m" by (intro ins) simp_all
    then have "group_normal H P L w (xs @ l # ys) =
        Inr (vec_normalize (average_normals H P L w (loop_subgroup_of L m (xs @ l # ys))))"
      by (simp add: group_normal_def)
    with s gn show "loop_subgroup_of L m (xs @ l # ys) = loop_subgroup_of L m loop_group \<and>
       group_normal H P L w (xs @ l # ys) = group_normal H P L w loop_group"
      by simp
  qed
  have equal: "\<forall>xs l ys. loop_group = xs @ ys \<and> influence L l = m \<longrightarrow>
       py_max (map (influence L) (xs @ l # ys)) = Inr m \<and>
       loop_subgroup_of L m (xs @ l # ys) =
         loop_subgroup_of L m xs @ l # loop_subgroup_of L m ys"
  proof (intro allI impI)
    fix xs l ys assume a: "loop_group = xs @ ys \<and> influence L l = m"
    then have "py_max (map (influence L) (xs @ l # ys)) = Inr m" by (intro ins) simp_all
    with a show "py_max (map (influence L) (xs @ l # ys)) = Inr m \<and>
       loop_subgroup_of L m (xs @ l # ys) =
         loop_subgroup_of L m xs @ l # loop_subgroup_of L m ys"
      by (simp add: loop_subgroup_of_def)
  qed
  from mx le ex gn sub lower equal show ?thesis by blast
qed

theorem only_greatest_influence_contributes_witness:
  "[example_loop 0 0 (1, 0, 0), example_loop 1 1 (0, 1, 0)] \<noteq> [] \<and>
   influence example_layers (example_loop 2 2 (0, 0, 1)) < 1 \<and>
   py_max (map (influence example_layers)
     [example_loop 0 0 (1, 0, 0), example_loop 1 1 (0, 1, 0)]) = Inr 1 \<and>
   group_normal example_helpers example_preferences example_layers 2
     [example_loop 0 0 (1, 0, 0), example_loop 2 2 (0, 0, 1), example_loop 1 1 (0, 1, 0)] =
   group_normal example_helpers example_preferences example_layers 2
     [example_loop 0 0 (1, 0, 0), example_loop 1 1 (0, 1, 0)]"
proof -
  let ?g = "[example_loop 0 0 (1, 0, 0), example_loop 1 1 (0, 1, 0)]"
  have ne: "?g \<noteq> []" by simp
  have low: "influence example_layers (example_loop 2 2 (0, 0, 1)) < 1"
    by (simp add: example_influence)
  have mx: "py_max (map (influence example_layers) ?g) = Inr 1"
    by (simp add: example_influence)
  from only_greatest_influence_contributes [OF ne, of example_layers example_helpers
      example_preferences 2]
  obtain m where m: "py_max (map (influence example_layers) ?g) = Inr m"
    and lower: "\<forall>xs l ys. ?g = xs @ ys \<and> influence example_layers l < m \<longrightarrow>
       loop_subgroup_of example_layers m (xs @ l # ys) = loop_subgroup_of example_layers m ?g \<and>
       group_normal example_helpers example_preferences example_layers 2 (xs @ l # ys) =
       group_normal example_helpers example_preferences example_layers 2 ?g"
    by blast
  from m mx have "m = 1" by simp
  with lower low have "group_normal example_helpers example_preferences example_layers 2
      ([example_loop 0 0 (1, 0, 0)] @ example_loop 2 2 (0, 0, 1) # [example_loop 1 1 (0, 1, 0)]) =
    group_normal example_helpers example_preferences example_layers 2 ?g"
    by (metis append_Cons append_Nil)
  with ne low mx show ?thesis by simp
qed



text \<open>
  C5.  When the sum of the contributions of a shading group has length zero, processing
  the group raises nothing and writes the zero vector into the slot of every loop of the
  group; the other slots of the buffer keep their value.  The group is not empty and the
  buffer has a slot for each of its loops, as the worker requires of its caller.
\<close>

theorem zero_length_sum_writes_zero_vector:
  assumes "loop_group \<noteq> []"
    and "\<forall>loop \<in> set loop_group. loop_index loop < length out"
    and "vec_length (average_normals H P L w
      (loop_subgroup_of L (Max (influence L ` set loop_group)) loop_group)) = 0"
  shows "\<exists>out'. process_group H P L w out loop_group = Inr out' \<and>
    length out' = length out \<and>
    (\<forall>loop \<in> set loop_group. out' ! loop_index loop = vec_zero) \<and>
    (\<forall>i < length out. i \<notin> loop_index ` set loop_group \<longrightarrow> out' ! i = out ! i)"
proof -
  define out' where "out' = fold (\<lambda>loop buf. buf[loop_index loop := vec_zero]) loop_group out"
  have gn: "group_normal H P L w loop_group = Inr vec_zero"
    using assms(1,3) by (simp add: group_normal_value normalize_zero_length)
  have run: "process_group H P L w out loop_group = Inr out'"
    using assms(2) by (simp add: process_group_def gn write_normals_fold out'_def)
  have len: "length out' = length out" by (simp add: out'_def length_fold_update)
  have written: "\<forall>loop \<in> set loop_group. out' ! loop_index loop = vec_zero"
    using assms(2) by (simp add: out'_def nth_fold_update)
  have others: "\<forall>i < length out. i \<notin> loop_index ` set loop_group \<longrightarrow> out' ! i = out ! i"
    by (simp add: out'_def nth_fold_update)
  from run len written others show ?thesis by blast
qed

theorem zero_length_sum_writes_zero_vector_witness:
  "\<exists>out'. process_group example_helpers example_preferences example_layers 0
      (replicate 5 (1, 1, 1)) [example_loop 3 2 (0, 0, 1), example_loop 4 3 (0, 0, - 1)] = Inr out' \<and>
    out' = [(1, 1, 1), (1, 1, 1), (1, 1, 1), vec_zero, vec_zero]"
proof -
  let ?g = "[example_loop 3 2 (0, 0, 1), example_loop 4 3 (0, 0, - 1)]"
  have ne: "?g \<noteq> []" by simp
  have idx: "\<forall>loop \<in> set ?g. loop_index loop < length (replicate 5 ((1, 1, 1) :: vec))"
    by (simp add: example_loop_def)
  have "Max (influence example_layers ` set ?g) = 0"
    by (simp add: example_influence)
  moreover have "loop_subgroup_of example_layers 0 ?g = ?g"
    by (simp add: loop_subgroup_of_def example_influence)
  moreover have "vec_length (average_normals example_helpers example_preferences example_layers 0 ?g) = 0"
    by (simp add: average_normals_def example_helpers_def accumulate_def example_loop_def
        vec_zero_def vec_length_def)
  ultimately have zero: "vec_length (average_normals example_helpers example_preferences example_layers 0
      (loop_subgroup_of example_layers (Max (influence example_layers ` set ?g)) ?g)) = 0"
    by (simp only:)
  from zero_length_sum_writes_zero_vector [OF ne idx zero]
  obtain out' where run: "process_group example_helpers example_preferences example_layers 0
      (replicate 5 (1, 1, 1)) ?g = Inr out'"
    and len: "length out' = length (replicate 5 ((1, 1, 1) :: vec))"
    and written: "\<forall>loop \<in> set ?g. out' ! loop_index loop = vec_zero"
    and others: "\<forall>i < length (replicate 5 ((1, 1, 1) :: vec)).
       i \<notin> loop_index ` set ?g \<longrightarrow> out' ! i = replicate 5 (1, 1, 1) ! i"
    by blast
  from len have l5: "length out' = 5" by simp
  from written have w: "out' ! 3 = vec_zero" "out' ! 4 = vec_zero"
    by (simp_all add: example_loop_def)
  from others have o: "out' ! 0 = (1, 1, 1)" "out' ! 1 = (1, 1, 1)" "out' ! 2 = (1, 1, 1)"
    by (simp_all add: example_loop_def)
  have "out' = [out' ! 0, out' ! 1, out' ! 2, out' ! 3, out' ! 4]"
    using l5 by (intro nth_equalityI) (auto simp: nth_Cons' less_Suc_eq numeral_eq_Suc)
  with w o have "out' = [(1, 1, 1), (1, 1, 1), (1, 1, 1), vec_zero, vec_zero]" by simp
  with run show ?thesis by blast
qed

section \<open>The grid of cells and the query\<close>

lemma cells_lookup_empty: "cells_lookup Map.empty i j k = []"
  by (simp add: cells_lookup_def)

lemma cells_lookup_insert:
  "cells_lookup (cells_insert d cells v) i j k =
     cells_lookup cells i j k @ (if cell_key d (co v) = (i, j, k) then [v] else [])"
proof -
  obtain x y z where key: "cell_key d (co v) = (x, y, z)"
    by (cases "cell_key d (co v)")
  show ?thesis
    unfolding cells_insert_def cells_lookup_def key
    by (simp add: Let_def split: option.splits)
qed

lemma build_cells_total: "d \<noteq> 0 \<Longrightarrow> \<exists>cells'. build_cells d cells vs = Inr cells'"
  by (induction vs arbitrary: cells) simp_all

lemma build_cells_lookup:
  assumes "build_cells d cells vs = Inr cells'"
  shows "cells_lookup cells' i j k =
    cells_lookup cells i j k @ filter (\<lambda>w. cell_key d (co w) = (i, j, k)) vs"
  using assms
proof (induction vs arbitrary: cells)
  case Nil
  then show ?case by simp
next
  case (Cons v vs)
  from Cons.prems have "build_cells d (cells_insert d cells v) vs = Inr cells'"
    by (simp split: if_splits)
  from Cons.IH [OF this] show ?case
    by (simp add: cells_lookup_insert)
qed

lemma floor_neighbour:
  fixes a b d :: real
  assumes "0 < d" "\<bar>a - b\<bar> \<le> d"
  shows "\<lfloor>a / d\<rfloor> \<in> {\<lfloor>b / d\<rfloor> - 1, \<lfloor>b / d\<rfloor>, \<lfloor>b / d\<rfloor> + 1}"
proof -
  from assms have ab: "a \<le> b + d" "b \<le> a + d" by linarith+
  have "a / d \<le> (b + d) / d" "b / d \<le> (a + d) / d"
    using ab assms(1) by (simp_all only: divide_right_mono less_imp_le)
  moreover have "(b + d) / d = b / d + 1" "(a + d) / d = a / d + 1"
    using assms(1) by (simp_all add: add_divide_distrib)
  ultimately have "a / d \<le> b / d + 1" "b / d \<le> a / d + 1" by simp_all
  then have "\<lfloor>a / d\<rfloor> \<le> \<lfloor>b / d + 1\<rfloor>" "\<lfloor>b / d\<rfloor> \<le> \<lfloor>a / d + 1\<rfloor>"
    by (simp_all only: floor_mono)
  then have "\<lfloor>a / d\<rfloor> \<le> \<lfloor>b / d\<rfloor> + 1" "\<lfloor>b / d\<rfloor> \<le> \<lfloor>a / d\<rfloor> + 1"
    by simp_all
  then have "\<lfloor>a / d\<rfloor> = \<lfloor>b / d\<rfloor> - 1 \<or> \<lfloor>a / d\<rfloor> = \<lfloor>b / d\<rfloor> \<or> \<lfloor>a / d\<rfloor> = \<lfloor>b / d\<rfloor> + 1"
    by linarith
  then show ?thesis by simp
qed

lemma square_le_imp_abs_le:
  fixes t d :: real
  assumes "0 < d" "t * t \<le> d ^ 2"
  shows "\<bar>t\<bar> \<le> d"
proof -
  from assms(2) have "\<bar>t\<bar> ^ 2 \<le> d ^ 2" by (simp add: power2_eq_square)
  moreover from assms(1) have "0 \<le> d" by simp
  ultimately show ?thesis by (rule power2_le_imp_le)
qed

lemma within_distance_neighbour_cell:
  assumes d: "0 < d"
    and near: "length_squared (vec_sub w c) \<le> d ^ 2"
    and kc: "cell_key d c = (x, y, z)" and kw: "cell_key d w = (x', y', z')"
  shows "x' \<in> {x - 1, x, x + 1} \<and> y' \<in> {y - 1, y, y + 1} \<and> z' \<in> {z - 1, z, z + 1}"
proof -
  obtain c1 c2 c3 where c: "c = (c1, c2, c3)" by (cases c)
  obtain w1 w2 w3 where w: "w = (w1, w2, w3)" by (cases w)
  from near have sum: "(w1 - c1) * (w1 - c1) + (w2 - c2) * (w2 - c2) + (w3 - c3) * (w3 - c3) \<le> d ^ 2"
    by (simp add: c w)
  have nn: "0 \<le> (w1 - c1) * (w1 - c1)" "0 \<le> (w2 - c2) * (w2 - c2)" "0 \<le> (w3 - c3) * (w3 - c3)"
    by simp_all
  from sum nn have "(w1 - c1) * (w1 - c1) \<le> d ^ 2" "(w2 - c2) * (w2 - c2) \<le> d ^ 2"
    "(w3 - c3) * (w3 - c3) \<le> d ^ 2"
    by linarith+
  then have "\<bar>w1 - c1\<bar> \<le> d" "\<bar>w2 - c2\<bar> \<le> d" "\<bar>w3 - c3\<bar> \<le> d"
    using d by (simp_all only: square_le_imp_abs_le)
  then have "\<lfloor>w1 / d\<rfloor> \<in> {\<lfloor>c1 / d\<rfloor> - 1, \<lfloor>c1 / d\<rfloor>, \<lfloor>c1 / d\<rfloor> + 1}"
    "\<lfloor>w2 / d\<rfloor> \<in> {\<lfloor>c2 / d\<rfloor> - 1, \<lfloor>c2 / d\<rfloor>, \<lfloor>c2 / d\<rfloor> + 1}"
    "\<lfloor>w3 / d\<rfloor> \<in> {\<lfloor>c3 / d\<rfloor> - 1, \<lfloor>c3 / d\<rfloor>, \<lfloor>c3 / d\<rfloor> + 1}"
    using d by (simp_all only: floor_neighbour)
  with kc kw show ?thesis by (simp add: c w)
qed

text \<open>The candidates of a query, as a list: the vertices of the 27 cells, cell after cell.\<close>

lemma nearby_verts_filter:
  assumes "build_cells d Map.empty vs = Inr cells" "cell_key d c = (x, y, z)"
  shows "nearby_verts d cells c =
     concat (map (\<lambda>i.
       concat (map (\<lambda>j.
         concat (map (\<lambda>k. filter (\<lambda>w. cell_key d (co w) = (i, j, k)) vs) [z - 1, z, z + 1]))
         [y - 1, y, y + 1]))
       [x - 1, x, x + 1])"
  by (simp add: nearby_verts_def assms(2) build_cells_lookup [OF assms(1)] cells_lookup_empty)

lemma set_concat_grid:
  "set (concat (map (\<lambda>i. concat (map (\<lambda>j. concat (map (\<lambda>k.
      filter (\<lambda>w. key w = (i, j, k)) vs) ks)) js)) is)) =
   {w \<in> set vs. fst (key w) \<in> set is \<and> fst (snd (key w)) \<in> set js \<and>
      snd (snd (key w)) \<in> set ks}"
proof -
  have "w \<in> set (concat (map (\<lambda>i. concat (map (\<lambda>j. concat (map (\<lambda>k.
      filter (\<lambda>w. key w = (i, j, k)) vs) ks)) js)) is)) \<longleftrightarrow>
     w \<in> set vs \<and> (\<exists>i \<in> set is. \<exists>j \<in> set js. \<exists>k \<in> set ks. key w = (i, j, k))" for w
    by auto
  moreover have "(\<exists>i \<in> set is. \<exists>j \<in> set js. \<exists>k \<in> set ks. key w = (i, j, k)) \<longleftrightarrow>
     fst (key w) \<in> set is \<and> fst (snd (key w)) \<in> set js \<and> snd (snd (key w)) \<in> set ks" for w
    by (cases "key w") auto
  ultimately show ?thesis by blast
qed

lemma set_nearby_verts:
  assumes "build_cells d Map.empty vs = Inr cells" "cell_key d c = (x, y, z)"
  shows "set (nearby_verts d cells c) =
     {w \<in> set vs. fst (cell_key d (co w)) \<in> {x - 1, x, x + 1} \<and>
        fst (snd (cell_key d (co w))) \<in> {y - 1, y, y + 1} \<and>
        snd (snd (cell_key d (co w))) \<in> {z - 1, z, z + 1}}"
proof -
  have "set [x - 1, x, x + 1] = {x - 1, x, x + 1}" "set [y - 1, y, y + 1] = {y - 1, y, y + 1}"
    "set [z - 1, z, z + 1] = {z - 1, z, z + 1}"
    by simp_all
  then show ?thesis
    unfolding nearby_verts_filter [OF assms] set_concat_grid by (simp only:)
qed

lemma set_mergeable_verts:
  assumes d: "0 < d" and cells: "build_cells d Map.empty vs = Inr cells"
  shows "set (mergeable_verts d cells v) =
     {w \<in> set vs. length_squared (vec_sub (co w) (co v)) \<le> d ^ 2}"
proof -
  obtain x y z where key: "cell_key d (co v) = (x, y, z)" by (cases "cell_key d (co v)")
  have "w \<in> set (nearby_verts d cells (co v))"
    if "w \<in> set vs" "length_squared (vec_sub (co w) (co v)) \<le> d ^ 2" for w
  proof -
    obtain x' y' z' where kw: "cell_key d (co w) = (x', y', z')" by (cases "cell_key d (co w)")
    from within_distance_neighbour_cell [OF d that(2) key kw] that(1)
    show ?thesis by (simp add: set_nearby_verts [OF cells key] kw)
  qed
  moreover have "w \<in> set vs" if "w \<in> set (nearby_verts d cells (co v))" for w
    using that unfolding set_nearby_verts [OF cells key] by simp
  ultimately show ?thesis
    unfolding mergeable_verts_def by auto
qed





section \<open>The writes of one pass of the merge loop\<close>

lemma assign_loop_weight [simp]:
  "vertex_normal_weight (assign_loop H vn loop L) = vertex_normal_weight L"
  "face_normal_influence (assign_loop H vn loop L) = face_normal_influence L"
  by (simp_all add: assign_loop_def split: prod.splits)

lemma assign_loop_stored:
  "stored_loop_normal (assign_loop H vn loop L) loop' =
     (if loop_index loop' = loop_index loop then loop_space_transform H loop vn False
      else stored_loop_normal L loop')"
  by (simp add: assign_loop_def stored_loop_normal_def split: prod.splits)

lemma fold_assign_loop_weight [simp]:
  "vertex_normal_weight (fold (assign_loop H vn) loops L) = vertex_normal_weight L"
  "face_normal_influence (fold (assign_loop H vn) loops L) = face_normal_influence L"
  by (induction loops arbitrary: L) simp_all

lemma fold_assign_loop_stored:
  assumes "\<forall>loop \<in> set loops. loop_index loop = loop_index loop' \<longrightarrow>
    loop_space_transform H loop vn False = loop_space_transform H loop' vn False"
  shows "stored_loop_normal (fold (assign_loop H vn) loops L) loop' =
     (if loop_index loop' \<in> loop_index ` set loops then loop_space_transform H loop' vn False
      else stored_loop_normal L loop')"
  using assms
proof (induction loops arbitrary: L)
  case Nil
  show ?case by simp
next
  case (Cons l loops)
  then show ?case by (auto simp: assign_loop_stored)
qed

lemma stored_loop_normal_weight_update [simp]:
  "stored_loop_normal (L\<lparr>vertex_normal_weight := f\<rparr>) loop = stored_loop_normal L loop"
  by (simp add: stored_loop_normal_def)

lemma assign_vertex_weight:
  "vertex_normal_weight (assign_vertex H vn v L) =
     (vertex_normal_weight L)(vert_index v := weight_value H UNWEIGHTED)"
  "face_normal_influence (assign_vertex H vn v L) = face_normal_influence L"
  by (simp_all add: assign_vertex_def)

lemma assign_vertex_stored:
  assumes "\<forall>loop \<in> set (link_loops v). loop_index loop = loop_index loop' \<longrightarrow>
    loop_space_transform H loop vn False = loop_space_transform H loop' vn False"
  shows "stored_loop_normal (assign_vertex H vn v L) loop' =
     (if loop_index loop' \<in> loop_index ` set (link_loops v)
      then loop_space_transform H loop' vn False else stored_loop_normal L loop')"
  using assms by (simp add: assign_vertex_def fold_assign_loop_stored)

lemma assign_merged_weight:
  "vertex_normal_weight (assign_merged H vn vs L) i =
     (if i \<in> vert_index ` set vs then weight_value H UNWEIGHTED else vertex_normal_weight L i)"
  unfolding assign_merged_def
  by (induction vs arbitrary: L) (simp_all add: assign_vertex_weight)

lemma assign_merged_influence:
  "face_normal_influence (assign_merged H vn vs L) = face_normal_influence L"
  unfolding assign_merged_def
  by (induction vs arbitrary: L) (simp_all add: assign_vertex_weight)

lemma assign_merged_stored:
  assumes "\<forall>v \<in> set vs. \<forall>loop \<in> set (link_loops v). loop_index loop = loop_index loop' \<longrightarrow>
    loop_space_transform H loop vn False = loop_space_transform H loop' vn False"
  shows "stored_loop_normal (assign_merged H vn vs L) loop' =
     (if \<exists>v \<in> set vs. loop_index loop' \<in> loop_index ` set (link_loops v)
      then loop_space_transform H loop' vn False else stored_loop_normal L loop')"
  using assms unfolding assign_merged_def
proof (induction vs arbitrary: L)
  case Nil
  show ?case by simp
next
  case (Cons v vs)
  then show ?case by (simp add: assign_vertex_stored)
qed

lemma merge_iterationE:
  assumes "merge_iteration H d cells snap L v_curr = Inr (L', mergeable, vn_local)"
  obtains normal_count where "v_curr_normal_count snap v_curr = Inr normal_count"
    and "d \<noteq> 0" and "mergeable = mergeable_verts d cells v_curr"
    and "merged_normal snap mergeable = Inr vn_local"
    and "L' = (if 1 < normal_count \<or> 1 < length mergeable
               then assign_merged H vn_local mergeable L else L)"
  using assms unfolding merge_iteration_def
  by (auto split: sum.splits if_splits)


section \<open>The merge loop\<close>

lemma merge_iteration_layers_free:
  assumes "merge_iteration H d cells snap L v_curr = Inr (L', mergeable, vn_local)"
  shows "\<exists>M'. merge_iteration H d cells snap M v_curr = Inr (M', mergeable, vn_local)"
  using assms unfolding merge_iteration_def
  by (auto split: sum.splits if_splits)

lemma merge_loop_unfold:
  "merge_loop pick H d cells snap L pending =
     (if pending = [] then Inr (L, [])
      else
        (case merge_iteration H d cells snap L (set_pop pick pending) of
           Inl e \<Rightarrow> Inl e
         | Inr (L', mergeable, vn_local) \<Rightarrow>
             (case merge_loop pick H d cells snap L'
                     (difference_update (removeAll (set_pop pick pending) pending)
                        (filter select mergeable)) of
                Inl e \<Rightarrow> Inl e
              | Inr (L'', passes) \<Rightarrow>
                  Inr (L'', (set_pop pick pending, mergeable, vn_local) # passes))))"
  by (rule merge_loop.simps)

lemma merge_loop_ConsE:
  assumes "merge_loop pick H d cells snap L pending = Inr (L', passes)" "pending \<noteq> []"
  obtains L1 mergeable vn_local rest where
    "merge_iteration H d cells snap L (set_pop pick pending) = Inr (L1, mergeable, vn_local)"
    "merge_loop pick H d cells snap L1
       (difference_update (removeAll (set_pop pick pending) pending) (filter select mergeable))
     = Inr (L', rest)"
    "passes = (set_pop pick pending, mergeable, vn_local) # rest"
  using assms by (subst (asm) merge_loop_unfold) (auto split: sum.splits)

lemma set_pop_in: "pending \<noteq> [] \<Longrightarrow> set_pop pick pending \<in> set pending"
  by (simp add: set_pop_def)

lemma set_difference_update: "set (difference_update xs ys) = set xs - set ys"
  by (auto simp: difference_update_def)

lemma distinct_difference_update: "distinct xs \<Longrightarrow> distinct (difference_update xs ys)"
  by (simp add: difference_update_def)

lemma merge_loop_passes:
  assumes "merge_loop pick H d cells snap L pending = Inr (L', passes)"
    and "distinct pending" and "\<forall>v \<in> set pending. select v"
  shows "length passes \<le> length pending \<and> distinct (map fst passes) \<and>
    fst ` set passes \<subseteq> set pending \<and>
    (\<forall>ps p qs. passes = ps @ p # qs \<longrightarrow> (\<forall>q \<in> set qs. fst q \<notin> set (fst (snd p)))) \<and>
    (\<forall>v \<in> set pending. \<exists>p \<in> set passes. v = fst p \<or> v \<in> set (fst (snd p))) \<and>
    (\<forall>p \<in> set passes. fst (snd p) = mergeable_verts d cells (fst p) \<and>
       merged_normal snap (fst (snd p)) = Inr (snd (snd p)))"
  using assms
proof (induction pick H d cells snap L pending arbitrary: L' passes rule: merge_loop.induct)
  case (1 pick H d cells snap L pending)
  show ?case
  proof (cases "pending = []")
    case True
    with "1.prems"(1) show ?thesis by (subst (asm) merge_loop_unfold) simp
  next
    case False
    define s where "s = set_pop pick pending"
    from "1.prems"(1) False obtain L1 c n rest where
      it: "merge_iteration H d cells snap L s = Inr (L1, c, n)"
      and run: "merge_loop pick H d cells snap L1
         (difference_update (removeAll s pending) (filter select c)) = Inr (L', rest)"
      and passes: "passes = (s, c, n) # rest"
      unfolding s_def by (rule merge_loop_ConsE)
    define pending' where "pending' = difference_update (removeAll s pending) (filter select c)"
    have s_in: "s \<in> set pending" unfolding s_def using False by (rule set_pop_in)
    have set': "set pending' = set pending - {s} - {v \<in> set c. select v}"
      by (auto simp: pending'_def set_difference_update)
    have dist': "distinct pending'"
      using "1.prems"(2) by (simp add: pending'_def distinct_difference_update distinct_removeAll)
    have sel': "\<forall>v \<in> set pending'. select v" using "1.prems"(3) by (simp add: set')
    have len': "length pending' < length pending"
    proof -
      have "length pending' \<le> length (removeAll s pending)"
        by (simp add: pending'_def difference_update_def)
      also have "\<dots> < length pending" using s_in by (rule length_removeAll_less)
      finally show ?thesis .
    qed
    have IH: "length rest \<le> length pending' \<and> distinct (map fst rest) \<and>
      fst ` set rest \<subseteq> set pending' \<and>
      (\<forall>ps p qs. rest = ps @ p # qs \<longrightarrow> (\<forall>q \<in> set qs. fst q \<notin> set (fst (snd p)))) \<and>
      (\<forall>v \<in> set pending'. \<exists>p \<in> set rest. v = fst p \<or> v \<in> set (fst (snd p))) \<and>
      (\<forall>p \<in> set rest. fst (snd p) = mergeable_verts d cells (fst p) \<and>
         merged_normal snap (fst (snd p)) = Inr (snd (snd p)))"
      unfolding pending'_def s_def
      by (rule "1.IH" [OF False it [unfolded s_def] refl refl run [unfolded s_def]])
        (use dist' sel' in \<open>simp_all add: pending'_def s_def\<close>)
    from it obtain k where c: "c = mergeable_verts d cells s" "merged_normal snap c = Inr n"
      by (rule merge_iterationE)
    have a: "length passes \<le> length pending" using IH len' by (simp add: passes)
    have seeds': "fst ` set rest \<subseteq> set pending - {s} - {v \<in> set c. select v}"
      using IH by (simp add: set')
    have b: "distinct (map fst passes)" using IH seeds' by (auto simp: passes)
    have cc: "fst ` set passes \<subseteq> set pending" using seeds' s_in by (auto simp: passes)
    have dd: "\<forall>ps p qs. passes = ps @ p # qs \<longrightarrow> (\<forall>q \<in> set qs. fst q \<notin> set (fst (snd p)))"
    proof (intro allI impI ballI)
      fix ps p qs q assume split: "passes = ps @ p # qs" and q: "q \<in> set qs"
      show "fst q \<notin> set (fst (snd p))"
      proof (cases ps)
        case Nil
        with split passes have p: "p = (s, c, n)" and qs: "qs = rest" by simp_all
        from q qs seeds' have "fst q \<in> set pending - {s} - {v \<in> set c. select v}" by auto
        moreover from this "1.prems"(3) have "select (fst q)" by simp
        ultimately show ?thesis by (auto simp: p)
      next
        case (Cons p0 ps')
        with split passes have "rest = ps' @ p # qs" by simp
        with IH q show ?thesis by blast
      qed
    qed
    have ee: "\<forall>v \<in> set pending. \<exists>p \<in> set passes. v = fst p \<or> v \<in> set (fst (snd p))"
    proof
      fix v assume v: "v \<in> set pending"
      show "\<exists>p \<in> set passes. v = fst p \<or> v \<in> set (fst (snd p))"
      proof (cases "v = s \<or> v \<in> set c")
        case True
        then show ?thesis by (auto simp: passes)
      next
        case False
        with v have "v \<in> set pending'" by (simp add: set')
        with IH obtain p where "p \<in> set rest" "v = fst p \<or> v \<in> set (fst (snd p))" by blast
        then show ?thesis by (auto simp: passes)
      qed
    qed
    have ff: "\<forall>p \<in> set passes. fst (snd p) = mergeable_verts d cells (fst p) \<and>
       merged_normal snap (fst (snd p)) = Inr (snd (snd p))"
    proof
      fix p assume "p \<in> set passes"
      then consider "p = (s, c, n)" | "p \<in> set rest" by (auto simp: passes)
      then show "fst (snd p) = mergeable_verts d cells (fst p) \<and>
         merged_normal snap (fst (snd p)) = Inr (snd (snd p))"
      proof cases
        case 1
        with c show ?thesis by simp
      next
        case 2
        with IH show ?thesis by blast
      qed
    qed
    from a b cc dd ee ff show ?thesis by blast
  qed
qed

lemma merge_loop_layers_free:
  assumes "merge_loop pick H d cells snap L pending = Inr (L', passes)"
  shows "\<exists>M'. merge_loop pick H d cells snap M pending = Inr (M', passes)"
  using assms
proof (induction pick H d cells snap L pending arbitrary: L' passes M rule: merge_loop.induct)
  case (1 pick H d cells snap L pending)
  show ?case
  proof (cases "pending = []")
    case True
    with "1.prems" show ?thesis
      by (subst merge_loop_unfold, subst (asm) merge_loop_unfold) simp
  next
    case False
    from "1.prems" False obtain L1 c n rest where
      it: "merge_iteration H d cells snap L (set_pop pick pending) = Inr (L1, c, n)"
      and run: "merge_loop pick H d cells snap L1
         (difference_update (removeAll (set_pop pick pending) pending) (filter select c))
         = Inr (L', rest)"
      and passes: "passes = (set_pop pick pending, c, n) # rest"
      by (rule merge_loop_ConsE)
    from merge_iteration_layers_free [OF it] obtain M1 where
      itM: "merge_iteration H d cells snap M (set_pop pick pending) = Inr (M1, c, n)" by blast
    from "1.IH" [OF False it refl refl run, of M1] obtain M' where
      runM: "merge_loop pick H d cells snap M1
         (difference_update (removeAll (set_pop pick pending) pending) (filter select c))
         = Inr (M', rest)" by blast
    have "merge_loop pick H d cells snap M pending = Inr (M', passes)"
      using False by (subst merge_loop_unfold) (simp add: itM runM passes)
    then show ?thesis by blast
  qed
qed

section \<open>Runs on the concrete meshes\<close>

lemma mergeable_verts_filter:
  assumes "build_cells d Map.empty vs = Inr cells" "cell_key d (co v) = (x, y, z)"
  shows "mergeable_verts d cells v =
     filter (\<lambda>w. length_squared (vec_sub (co w) (co v)) \<le> d ^ 2)
       (concat (map (\<lambda>i.
         concat (map (\<lambda>j.
           concat (map (\<lambda>k. filter (\<lambda>w. cell_key d (co w) = (i, j, k)) vs) [z - 1, z, z + 1]))
           [y - 1, y, y + 1]))
         [x - 1, x, x + 1]))"
  by (simp only: mergeable_verts_def nearby_verts_filter [OF assms])

lemma vec_normalize_units:
  "vec_normalize (1, 0, 0) = (1, 0, 0)" "vec_normalize (0, 1, 0) = (0, 1, 0)"
  "vec_normalize (0, 0, 1) = (0, 0, 1)" "vec_normalize (0, 0, 0) = (0, 0, 0)"
  by (simp_all add: vec_normalize_def vec_length_def vec_zero_def)

lemma line_co:
  "co line_v0 = (0, 0, 0)" "co line_v1 = (1, 0, 0)" "co line_v2 = (2, 0, 0)"
  "select line_v0" "select line_v1" "select line_v2"
  "line_v0 \<noteq> line_v1" "line_v0 \<noteq> line_v2" "line_v1 \<noteq> line_v2"
  "line_v1 \<noteq> line_v0" "line_v2 \<noteq> line_v0" "line_v2 \<noteq> line_v1"
  by (simp_all add: line_v0_def line_v1_def line_v2_def selected_vert_def)

lemma line_clusters:
  assumes "build_cells 1 Map.empty line_bm = Inr cells"
  shows "mergeable_verts 1 cells line_v0 = [line_v0, line_v1]"
    "mergeable_verts 1 cells line_v2 = [line_v1, line_v2]"
proof -
  have k0: "cell_key 1 (co line_v0) = (0, 0, 0)"
    and k2: "cell_key 1 (co line_v2) = (2, 0, 0)"
    by (simp_all add: line_co)
  show "mergeable_verts 1 cells line_v0 = [line_v0, line_v1]"
    unfolding mergeable_verts_filter [OF assms k0]
    by (simp add: line_bm_def line_co)
  show "mergeable_verts 1 cells line_v2 = [line_v1, line_v2]"
    unfolding mergeable_verts_filter [OF assms k2]
    by (simp add: line_bm_def line_co)
qed

lemma line_normals:
  "v_curr_normal_count line_loop_normals line_v0 = Inr 1"
  "v_curr_normal_count line_loop_normals line_v2 = Inr 1"
  "merged_normal line_loop_normals [line_v0, line_v1] = Inr (vec_normalize (1, 1, 0))"
  "merged_normal line_loop_normals [line_v1, line_v2] = Inr (vec_normalize (0, 1, 1))"
  by (simp_all add: v_curr_normal_count_def merged_normal_def line_v0_def line_v1_def
      line_v2_def selected_vert_def
      example_loop_def line_loop_normals_def snapshot_tuple_def snapshot_slice_def
      vec_zero_def vec_normalize_units)

lemma line_passes:
  assumes "build_cells 1 Map.empty line_bm = Inr cells"
  shows "merge_loop pick_first H 1 cells line_loop_normals L line_bm =
    Inr (assign_merged H (vec_normalize (0, 1, 1)) [line_v1, line_v2]
          (assign_merged H (vec_normalize (1, 1, 0)) [line_v0, line_v1] L),
         [(line_v0, [line_v0, line_v1], vec_normalize (1, 1, 0)),
          (line_v2, [line_v1, line_v2], vec_normalize (0, 1, 1))])"
proof -
  have it0: "merge_iteration H 1 cells line_loop_normals L line_v0 =
      Inr (assign_merged H (vec_normalize (1, 1, 0)) [line_v0, line_v1] L,
        [line_v0, line_v1], vec_normalize (1, 1, 0))" for L
    by (simp add: merge_iteration_def line_clusters [OF assms] line_normals)
  have it2: "merge_iteration H 1 cells line_loop_normals L line_v2 =
      Inr (assign_merged H (vec_normalize (0, 1, 1)) [line_v1, line_v2] L,
        [line_v1, line_v2], vec_normalize (0, 1, 1))" for L
    by (simp add: merge_iteration_def line_clusters [OF assms] line_normals)
  have last: "merge_loop pick_first H 1 cells line_loop_normals L [] = Inr (L, [])" for L
    by (subst merge_loop_unfold) simp
  have second: "merge_loop pick_first H 1 cells line_loop_normals L [line_v2] =
      Inr (assign_merged H (vec_normalize (0, 1, 1)) [line_v1, line_v2] L,
        [(line_v2, [line_v1, line_v2], vec_normalize (0, 1, 1))])" for L
    by (subst merge_loop_unfold)
      (simp add: set_pop_def pick_first_def difference_update_def line_co it2 last)
  show ?thesis
    unfolding line_bm_def
    by (subst merge_loop_unfold)
      (simp add: set_pop_def pick_first_def difference_update_def line_co it0 second)
qed


lemma no_loops_normals:
  assumes "\<forall>v \<in> set vs. link_loops v = []"
  shows "sum_vertex_normals snap vec_zero vs = Inr vec_zero"
  using assms
  by (induction vs) (simp_all add: vec_zero_def vec_normalize_units)

lemma no_loops_merged_normal:
  assumes "\<forall>v \<in> set vs. link_loops v = []"
  shows "merged_normal snap vs = Inr vec_zero"
  using no_loops_normals [OF assms, of snap]
  by (simp add: merged_normal_def vec_zero_def vec_normalize_units)

lemma no_loops_count: "link_loops v = [] \<Longrightarrow> v_curr_normal_count snap v = Inr 0"
  by (simp add: v_curr_normal_count_def)

lemma cross_co:
  "co cross_v0 = (0, 12, 0)" "co cross_v1 = (0, 0, 0)" "co cross_v2 = (- 10, 0, 0)"
  "co cross_v3 = (10, 0, 0)"
  "select cross_v0" "select cross_v1" "select cross_v2" "select cross_v3"
  "link_loops cross_v0 = []" "link_loops cross_v1 = []" "link_loops cross_v2 = []"
  "link_loops cross_v3 = []"
  "vert_index cross_v0 = 0" "vert_index cross_v1 = 1" "vert_index cross_v2 = 2"
  "vert_index cross_v3 = 3"
  by (simp_all add: cross_v0_def cross_v1_def cross_v2_def cross_v3_def selected_vert_def)

lemma cross_distinct:
  "cross_v0 \<noteq> cross_v1" "cross_v0 \<noteq> cross_v2" "cross_v0 \<noteq> cross_v3"
  "cross_v1 \<noteq> cross_v0" "cross_v1 \<noteq> cross_v2" "cross_v1 \<noteq> cross_v3"
  "cross_v2 \<noteq> cross_v0" "cross_v2 \<noteq> cross_v1" "cross_v2 \<noteq> cross_v3"
  "cross_v3 \<noteq> cross_v0" "cross_v3 \<noteq> cross_v1" "cross_v3 \<noteq> cross_v2"
  by (simp_all add: cross_v0_def cross_v1_def cross_v2_def cross_v3_def selected_vert_def)

lemma floor_minus_one_real: "\<lfloor>- 1 :: real\<rfloor> = - 1"
  using floor_of_int [of "- 1", where ?'a = real] by simp

lemma cross_clusters_10:
  assumes "build_cells 10 Map.empty cross_bm = Inr cells"
  shows "mergeable_verts 10 cells cross_v0 = [cross_v0]"
    "mergeable_verts 10 cells cross_v1 = [cross_v2, cross_v1, cross_v3]"
proof -
  have k0: "cell_key 10 (co cross_v0) = (0, 1, 0)"
    and k1: "cell_key 10 (co cross_v1) = (0, 0, 0)"
    by (simp_all add: cross_co)
  note [simp] = floor_minus_one_real
  show "mergeable_verts 10 cells cross_v0 = [cross_v0]"
    unfolding mergeable_verts_filter [OF assms k0]
    by (simp add: cross_bm_def cross_co)
  show "mergeable_verts 10 cells cross_v1 = [cross_v2, cross_v1, cross_v3]"
    unfolding mergeable_verts_filter [OF assms k1]
    by (simp add: cross_bm_def cross_co)
qed

lemma cross_clusters_15:
  assumes "build_cells 15 Map.empty cross_bm = Inr cells"
  shows "mergeable_verts 15 cells cross_v0 = [cross_v0, cross_v1]"
    "mergeable_verts 15 cells cross_v2 = [cross_v2, cross_v1]"
    "mergeable_verts 15 cells cross_v3 = [cross_v1, cross_v3]"
proof -
  have k0: "cell_key 15 (co cross_v0) = (0, 0, 0)"
    and k2: "cell_key 15 (co cross_v2) = (- 1, 0, 0)"
    and k3: "cell_key 15 (co cross_v3) = (0, 0, 0)"
    by (simp_all add: cross_co)
  show "mergeable_verts 15 cells cross_v0 = [cross_v0, cross_v1]"
    unfolding mergeable_verts_filter [OF assms k0]
    by (simp add: cross_bm_def cross_co)
  show "mergeable_verts 15 cells cross_v2 = [cross_v2, cross_v1]"
    unfolding mergeable_verts_filter [OF assms k2]
    by (simp add: cross_bm_def cross_co)
  show "mergeable_verts 15 cells cross_v3 = [cross_v1, cross_v3]"
    unfolding mergeable_verts_filter [OF assms k3]
    by (simp add: cross_bm_def cross_co)
qed

lemma merge_loop_Nil: "merge_loop pick H d cells snap L [] = Inr (L, [])"
  by (subst merge_loop_unfold) simp

lemma cross_passes_10:
  assumes "build_cells 10 Map.empty cross_bm = Inr cells"
  shows "\<exists>L'. merge_loop pick_first H 10 cells snap L cross_bm =
    Inr (L', [(cross_v0, [cross_v0], vec_zero),
              (cross_v1, [cross_v2, cross_v1, cross_v3], vec_zero)])"
proof -
  have it0: "merge_iteration H 10 cells snap L cross_v0 = Inr (L, [cross_v0], vec_zero)" for L
    by (simp add: merge_iteration_def cross_clusters_10 [OF assms] no_loops_count
        no_loops_merged_normal cross_co)
  have it1: "merge_iteration H 10 cells snap L cross_v1 =
      Inr (assign_merged H vec_zero [cross_v2, cross_v1, cross_v3] L,
        [cross_v2, cross_v1, cross_v3], vec_zero)" for L
    by (simp add: merge_iteration_def cross_clusters_10 [OF assms] no_loops_count
        no_loops_merged_normal cross_co)
  have second: "merge_loop pick_first H 10 cells snap L [cross_v1, cross_v2, cross_v3] =
      Inr (assign_merged H vec_zero [cross_v2, cross_v1, cross_v3] L,
        [(cross_v1, [cross_v2, cross_v1, cross_v3], vec_zero)])" for L
    by (subst merge_loop_unfold)
      (simp add: set_pop_def pick_first_def difference_update_def cross_co cross_distinct it1
        merge_loop_Nil)
  have "merge_loop pick_first H 10 cells snap L cross_bm =
    Inr (assign_merged H vec_zero [cross_v2, cross_v1, cross_v3] L,
      [(cross_v0, [cross_v0], vec_zero),
       (cross_v1, [cross_v2, cross_v1, cross_v3], vec_zero)])"
    unfolding cross_bm_def
    by (subst merge_loop_unfold)
      (simp add: set_pop_def pick_first_def difference_update_def cross_co cross_distinct it0
        second)
  then show ?thesis by blast
qed

lemma cross_passes_15:
  assumes "build_cells 15 Map.empty cross_bm = Inr cells"
  shows "\<exists>L'. merge_loop pick_first H 15 cells snap L cross_bm =
    Inr (L', [(cross_v0, [cross_v0, cross_v1], vec_zero),
              (cross_v2, [cross_v2, cross_v1], vec_zero),
              (cross_v3, [cross_v1, cross_v3], vec_zero)])"
proof -
  have it0: "merge_iteration H 15 cells snap L cross_v0 =
      Inr (assign_merged H vec_zero [cross_v0, cross_v1] L, [cross_v0, cross_v1], vec_zero)" for L
    by (simp add: merge_iteration_def cross_clusters_15 [OF assms] no_loops_count
        no_loops_merged_normal cross_co)
  have it2: "merge_iteration H 15 cells snap L cross_v2 =
      Inr (assign_merged H vec_zero [cross_v2, cross_v1] L, [cross_v2, cross_v1], vec_zero)" for L
    by (simp add: merge_iteration_def cross_clusters_15 [OF assms] no_loops_count
        no_loops_merged_normal cross_co)
  have it3: "merge_iteration H 15 cells snap L cross_v3 =
      Inr (assign_merged H vec_zero [cross_v1, cross_v3] L, [cross_v1, cross_v3], vec_zero)" for L
    by (simp add: merge_iteration_def cross_clusters_15 [OF assms] no_loops_count
        no_loops_merged_normal cross_co)
  have third: "merge_loop pick_first H 15 cells snap L [cross_v3] =
      Inr (assign_merged H vec_zero [cross_v1, cross_v3] L,
        [(cross_v3, [cross_v1, cross_v3], vec_zero)])" for L
    by (subst merge_loop_unfold)
      (simp add: set_pop_def pick_first_def difference_update_def cross_co cross_distinct it3
        merge_loop_Nil)
  have second: "merge_loop pick_first H 15 cells snap L [cross_v2, cross_v3] =
      Inr (assign_merged H vec_zero [cross_v1, cross_v3]
            (assign_merged H vec_zero [cross_v2, cross_v1] L),
        [(cross_v2, [cross_v2, cross_v1], vec_zero),
         (cross_v3, [cross_v1, cross_v3], vec_zero)])" for L
    by (subst merge_loop_unfold)
      (simp add: set_pop_def pick_first_def difference_update_def cross_co cross_distinct it2
        third)
  have "merge_loop pick_first H 15 cells snap L cross_bm =
    Inr (assign_merged H vec_zero [cross_v1, cross_v3]
          (assign_merged H vec_zero [cross_v2, cross_v1]
            (assign_merged H vec_zero [cross_v0, cross_v1] L)),
      [(cross_v0, [cross_v0, cross_v1], vec_zero),
       (cross_v2, [cross_v2, cross_v1], vec_zero),
       (cross_v3, [cross_v1, cross_v3], vec_zero)])"
    unfolding cross_bm_def
    by (subst merge_loop_unfold)
      (simp add: set_pop_def pick_first_def difference_update_def cross_co cross_distinct it0
        second)
  then show ?thesis by blast
qed

lemma selected_all:
  assumes "distinct bm" "\<forall>v \<in> set bm. select v"
  shows "remdups (filter select bm) = bm"
  using assms by (simp add: distinct_remdups_id)

lemma cross_selected: "remdups (filter select cross_bm) = cross_bm"
  by (rule selected_all) (simp_all add: cross_bm_def cross_co cross_distinct)

lemma line_selected: "remdups (filter select line_bm) = line_bm"
  by (rule selected_all) (simp_all add: line_bm_def line_co)

lemma twin_co:
  "co twin_v0 = (0, 0, 0)" "co twin_v1 = (0, 0, 0)" "select twin_v0" "select twin_v1"
  "twin_v0 \<noteq> twin_v1" "twin_v1 \<noteq> twin_v0"
  "vert_index twin_v0 = 0" "vert_index twin_v1 = 1"
  "link_loops twin_v0 = [example_loop 0 0 (1, 0, 0)]"
  "link_loops twin_v1 = [example_loop 1 0 (1, 0, 0)]"
  by (simp_all add: twin_v0_def twin_v1_def selected_vert_def)

lemma twin_pass:
  assumes "build_cells (1 / 1000) Map.empty twin_bm = Inr cells"
  shows "merge_iteration H (1 / 1000) cells twin_loop_normals L twin_v0 =
    Inr (assign_merged H (1, 0, 0) [twin_v0, twin_v1] L, [twin_v0, twin_v1], (1, 0, 0))"
proof -
  have k0: "cell_key (1 / 1000) (co twin_v0) = (0, 0, 0)" by (simp add: twin_co)
  have cluster: "mergeable_verts (1 / 1000) cells twin_v0 = [twin_v0, twin_v1]"
    unfolding mergeable_verts_filter [OF assms k0]
    by (simp add: twin_bm_def twin_co)
  have count: "v_curr_normal_count twin_loop_normals twin_v0 = Inr 1"
    by (simp add: v_curr_normal_count_def twin_co example_loop_def twin_loop_normals_def
        snapshot_tuple_def)
  have "vec_length (2, 0, 0) = 2"
    using real_sqrt_abs [of 2] by (simp add: vec_length_def power2_eq_square)
  then have "vec_normalize (2, 0, 0) = (1, 0, 0)" by (simp add: vec_normalize_def)
  then have normal: "merged_normal twin_loop_normals [twin_v0, twin_v1] = Inr (1, 0, 0)"
    by (simp add: merged_normal_def twin_co example_loop_def twin_loop_normals_def
        snapshot_slice_def vec_zero_def vec_normalize_units)
  show ?thesis
    by (simp add: merge_iteration_def cluster count normal)
qed

lemma loose_co:
  "co loose_vert = (0, 0, 0)" "select loose_vert" "link_loops loose_vert = []"
  "vert_index loose_vert = 0"
  by (simp_all add: loose_vert_def selected_vert_def)

lemma loose_run:
  "merge_execute pick_first H (1 / 1000) False [loose_vert] snap L =
     Inr (L, [(loose_vert, [loose_vert], vec_zero)])"
proof -
  have sel: "remdups (filter select [loose_vert]) = [loose_vert]" by (simp add: loose_co)
  obtain cells where cells: "build_cells (1 / 1000) Map.empty [loose_vert] = Inr cells"
    using build_cells_total [of "1 / 1000" Map.empty "[loose_vert]"] by auto
  have k: "cell_key (1 / 1000) (co loose_vert) = (0, 0, 0)" by (simp add: loose_co)
  have cluster: "mergeable_verts (1 / 1000) cells loose_vert = [loose_vert]"
    unfolding mergeable_verts_filter [OF cells k] by (simp add: loose_co)
  have it: "merge_iteration H (1 / 1000) cells snap L loose_vert =
      Inr (L, [loose_vert], vec_zero)"
    by (simp add: merge_iteration_def cluster no_loops_count no_loops_merged_normal loose_co)
  have "merge_loop pick_first H (1 / 1000) cells snap L [loose_vert] =
      Inr (L, [(loose_vert, [loose_vert], vec_zero)])"
    by (subst merge_loop_unfold)
      (simp add: set_pop_def pick_first_def difference_update_def loose_co it merge_loop_Nil)
  moreover have "merge_execute pick_first H (1 / 1000) False [loose_vert] snap L =
      merge_loop pick_first H (1 / 1000) cells snap L [loose_vert]"
    unfolding merge_execute_def sel by (simp only: if_False cells sum.case)
  ultimately show ?thesis by simp
qed

lemma line_run:
  "merge_execute pick_first H 1 False line_bm line_loop_normals L =
    Inr (assign_merged H (vec_normalize (0, 1, 1)) [line_v1, line_v2]
          (assign_merged H (vec_normalize (1, 1, 0)) [line_v0, line_v1] L),
         [(line_v0, [line_v0, line_v1], vec_normalize (1, 1, 0)),
          (line_v2, [line_v1, line_v2], vec_normalize (0, 1, 1))])"
proof -
  obtain cells where cells: "build_cells 1 Map.empty line_bm = Inr cells"
    using build_cells_total [of 1 Map.empty line_bm] by auto
  show ?thesis
    by (simp add: merge_execute_def line_selected cells line_passes [OF cells])
qed

lemma line_vert_fields:
  "vert_index line_v0 = 0" "vert_index line_v1 = 1" "vert_index line_v2 = 2"
  "link_loops line_v0 = [example_loop 0 0 (1, 0, 0)]"
  "link_loops line_v1 = [example_loop 1 1 (0, 1, 0)]"
  "link_loops line_v2 = [example_loop 2 2 (0, 0, 1)]"
  by (simp_all add: line_v0_def line_v1_def line_v2_def selected_vert_def)

lemma example_transform: "loop_space_transform example_helpers loop vn flag = vn"
  by (simp add: example_helpers_def)

lemma example_loop_index: "loop_index (example_loop i f n) = i"
  by (simp add: example_loop_def)

lemma cross_run_10:
  "pass_clusters (merge_execute pick_first H 10 False cross_bm snap L) = Inr [[0], [2, 1, 3]]"
proof -
  obtain cells where cells: "build_cells 10 Map.empty cross_bm = Inr cells"
    using build_cells_total [of 10 Map.empty cross_bm] by auto
  from cross_passes_10 [OF cells, of H snap L] obtain L' where
    "merge_loop pick_first H 10 cells snap L cross_bm =
      Inr (L', [(cross_v0, [cross_v0], vec_zero),
                (cross_v1, [cross_v2, cross_v1, cross_v3], vec_zero)])" by blast
  then show ?thesis
    by (simp add: merge_execute_def cross_selected cells pass_clusters_def cross_co)
qed

lemma cross_run_15:
  "pass_clusters (merge_execute pick_first H 15 False cross_bm snap L) =
     Inr [[0, 1], [2, 1], [1, 3]]"
proof -
  obtain cells where cells: "build_cells 15 Map.empty cross_bm = Inr cells"
    using build_cells_total [of 15 Map.empty cross_bm] by auto
  from cross_passes_15 [OF cells, of H snap L] obtain L' where
    "merge_loop pick_first H 15 cells snap L cross_bm =
      Inr (L', [(cross_v0, [cross_v0, cross_v1], vec_zero),
                (cross_v2, [cross_v2, cross_v1], vec_zero),
                (cross_v3, [cross_v1, cross_v3], vec_zero)])" by blast
  then show ?thesis
    by (simp add: merge_execute_def cross_selected cells pass_clusters_def cross_co)
qed

section \<open>Runs of the merge loop end\<close>

lemma seed_normals_total:
  assumes "\<forall>loop \<in> set loops. loop_index loop * 3 + 3 \<le> length snap"
  shows "\<exists>ns. seed_normals snap loops = Inr ns"
  using assms
proof (induction loops)
  case Nil
  show ?case by simp
next
  case (Cons l loops)
  then obtain ns where "seed_normals snap loops = Inr ns" by auto
  moreover from Cons.prems have "loop_index l * 3 + 2 < length snap" by simp
  ultimately show ?case by (simp add: snapshot_tuple_def)
qed

lemma sum_loop_normals_total:
  assumes "\<forall>loop \<in> set loops. loop_index loop * 3 + 3 \<le> length snap"
  shows "\<exists>vn. sum_loop_normals snap a loops = Inr vn"
  using assms
proof (induction loops arbitrary: a)
  case Nil
  show ?case by (rule exI [of _ a]) simp
next
  case (Cons l loops)
  define n where "n = (snap ! (loop_index l * 3), snap ! (loop_index l * 3 + 1),
    snap ! (loop_index l * 3 + 2))"
  from Cons.prems have slice: "snapshot_slice snap l = Inr n"
    by (simp add: snapshot_slice_def n_def)
  from Cons.prems have "\<forall>loop \<in> set loops. loop_index loop * 3 + 3 \<le> length snap" by simp
  from Cons.IH [OF this, of "vec_add a n"] obtain vn
    where "sum_loop_normals snap (vec_add a n) loops = Inr vn" by blast
  then have "sum_loop_normals snap a (l # loops) = Inr vn" by (simp add: slice)
  then show ?case by blast
qed

lemma sum_vertex_normals_total:
  assumes "\<forall>v \<in> set vs. \<forall>loop \<in> set (link_loops v). loop_index loop * 3 + 3 \<le> length snap"
  shows "\<exists>vn. sum_vertex_normals snap a vs = Inr vn"
  using assms
proof (induction vs arbitrary: a)
  case Nil
  show ?case by (rule exI [of _ a]) simp
next
  case (Cons v vs)
  from Cons.prems have "\<forall>loop \<in> set (link_loops v). loop_index loop * 3 + 3 \<le> length snap"
    by simp
  from sum_loop_normals_total [OF this] obtain vn
    where vn: "sum_loop_normals snap vec_zero (link_loops v) = Inr vn" by blast
  from Cons.prems have "\<forall>v \<in> set vs. \<forall>loop \<in> set (link_loops v).
      loop_index loop * 3 + 3 \<le> length snap" by simp
  from Cons.IH [OF this, of "vec_add a (vec_normalize vn)"] obtain r
    where "sum_vertex_normals snap (vec_add a (vec_normalize vn)) vs = Inr r" by blast
  then have "sum_vertex_normals snap a (v # vs) = Inr r" by (simp add: vn)
  then show ?case by blast
qed

lemma merge_iteration_total:
  assumes "d \<noteq> 0"
    and "\<forall>loop \<in> set (link_loops v_curr). loop_index loop * 3 + 3 \<le> length snap"
    and "\<forall>v \<in> set (mergeable_verts d cells v_curr).
      \<forall>loop \<in> set (link_loops v). loop_index loop * 3 + 3 \<le> length snap"
  shows "\<exists>L' vn_local. merge_iteration H d cells snap L v_curr =
    Inr (L', mergeable_verts d cells v_curr, vn_local)"
proof -
  from seed_normals_total [OF assms(2)] obtain ns
    where "seed_normals snap (link_loops v_curr) = Inr ns" by blast
  then have count: "v_curr_normal_count snap v_curr = Inr (length (remdups ns))"
    by (simp add: v_curr_normal_count_def)
  from sum_vertex_normals_total [OF assms(3)] obtain vn
    where "sum_vertex_normals snap vec_zero (mergeable_verts d cells v_curr) = Inr vn" by blast
  then have "merged_normal snap (mergeable_verts d cells v_curr) = Inr (vec_normalize vn)"
    by (simp add: merged_normal_def)
  with count assms(1) have "merge_iteration H d cells snap L v_curr =
      Inr (if 1 < length (remdups ns) \<or> 1 < length (mergeable_verts d cells v_curr)
           then assign_merged H (vec_normalize vn) (mergeable_verts d cells v_curr) L else L,
           mergeable_verts d cells v_curr, vec_normalize vn)"
    by (simp add: merge_iteration_def)
  then show ?thesis by blast
qed

lemma mergeable_verts_subset:
  assumes "build_cells d Map.empty vs = Inr cells"
  shows "set (mergeable_verts d cells v) \<subseteq> set vs"
proof -
  obtain x y z where key: "cell_key d (co v) = (x, y, z)" by (cases "cell_key d (co v)")
  have "set (mergeable_verts d cells v) \<subseteq> set (nearby_verts d cells (co v))"
    by (auto simp: mergeable_verts_def)
  also have "\<dots> \<subseteq> set vs" unfolding set_nearby_verts [OF assms key] by blast
  finally show ?thesis .
qed

lemma merge_loop_total:
  assumes "d \<noteq> 0" and "build_cells d Map.empty vs = Inr cells"
    and "\<forall>v \<in> set vs. \<forall>loop \<in> set (link_loops v). loop_index loop * 3 + 3 \<le> length snap"
    and "\<forall>v \<in> set pending. \<forall>loop \<in> set (link_loops v). loop_index loop * 3 + 3 \<le> length snap"
  shows "\<exists>L' passes. merge_loop pick H d cells snap L pending = Inr (L', passes)"
  using assms
proof (induction pick H d cells snap L pending rule: merge_loop.induct)
  case (1 pick H d cells snap L pending)
  show ?case
  proof (cases "pending = []")
    case True
    then show ?thesis by (simp add: merge_loop_Nil)
  next
    case False
    define s where "s = set_pop pick pending"
    have s_in: "s \<in> set pending" unfolding s_def using False by (rule set_pop_in)
    have "\<forall>v \<in> set (mergeable_verts d cells s).
        \<forall>loop \<in> set (link_loops v). loop_index loop * 3 + 3 \<le> length snap"
      using mergeable_verts_subset [OF "1.prems"(2), of s] "1.prems"(3) by blast
    with "1.prems"(1,4) s_in obtain L1 n where
      it: "merge_iteration H d cells snap L s = Inr (L1, mergeable_verts d cells s, n)"
      using merge_iteration_total [of d s snap cells H L] by blast
    have "\<forall>v \<in> set (difference_update (removeAll s pending)
        (filter select (mergeable_verts d cells s))).
        \<forall>loop \<in> set (link_loops v). loop_index loop * 3 + 3 \<le> length snap"
      using "1.prems"(4) by (auto simp: set_difference_update)
    with "1.IH" [OF False it [unfolded s_def] refl refl "1.prems"(1,2,3)]
    obtain L' rest where run: "merge_loop pick H d cells snap L1
        (difference_update (removeAll s pending) (filter select (mergeable_verts d cells s)))
        = Inr (L', rest)"
      unfolding s_def by blast
    have "merge_loop pick H d cells snap L pending =
        Inr (L', (s, mergeable_verts d cells s, n) # rest)"
      using False it run unfolding s_def by (subst merge_loop_unfold) simp
    then show ?thesis by blast
  qed
qed

lemma merge_loop_pass_values:
  assumes "merge_loop pick H d cells snap L pending = Inr (L', passes)"
  shows "\<forall>p \<in> set passes. fst (snd p) = mergeable_verts d cells (fst p) \<and>
    merged_normal snap (fst (snd p)) = Inr (snd (snd p))"
  using assms
proof (induction pick H d cells snap L pending arbitrary: L' passes rule: merge_loop.induct)
  case (1 pick H d cells snap L pending)
  show ?case
  proof (cases "pending = []")
    case True
    with "1.prems" show ?thesis by (simp add: merge_loop_Nil)
  next
    case False
    from "1.prems" False obtain L1 c n rest where
      it: "merge_iteration H d cells snap L (set_pop pick pending) = Inr (L1, c, n)"
      and run: "merge_loop pick H d cells snap L1
         (difference_update (removeAll (set_pop pick pending) pending) (filter select c))
         = Inr (L', rest)"
      and passes: "passes = (set_pop pick pending, c, n) # rest"
      by (rule merge_loop_ConsE)
    from it obtain k where c: "c = mergeable_verts d cells (set_pop pick pending)"
      "merged_normal snap c = Inr n"
      by (rule merge_iterationE)
    from "1.IH" [OF False it refl refl run]
    have IH: "\<forall>p \<in> set rest. fst (snd p) = mergeable_verts d cells (fst p) \<and>
      merged_normal snap (fst (snd p)) = Inr (snd (snd p))" .
    show ?thesis
    proof
      fix p assume "p \<in> set passes"
      then consider "p = (set_pop pick pending, c, n)" | "p \<in> set rest"
        by (auto simp: passes)
      then show "fst (snd p) = mergeable_verts d cells (fst p) \<and>
         merged_normal snap (fst (snd p)) = Inr (snd (snd p))"
      proof cases
        case 1
        with c show ?thesis by simp
      next
        case 2
        with IH show ?thesis by blast
      qed
    qed
  qed
qed


section \<open>The claims on the merge operation\<close>

text \<open>
  C7, as stated, fails.  A selected vertex without loops that is alone within the merge
  distance has no normal at all over its loops, not a single one, and its cluster has one
  member; the pass writes nothing, and the vertex keeps its weight (2, AREA, in the
  layers of the example) and is not promoted to UNWEIGHTED (4).
\<close>

theorem merge_skip_counterexample:
  "v_curr_normal_count [] loose_vert = Inr 0 \<and>
   pass_clusters (merge_execute pick_first example_helpers (1 / 1000) False [loose_vert] []
     example_layers) = Inr [[0]] \<and>
   final_weight (merge_execute pick_first example_helpers (1 / 1000) False [loose_vert] []
     example_layers) 0 = Inr 2 \<and>
   weight_value example_helpers UNWEIGHTED = 4"
  by (simp add: loose_run no_loops_count loose_co pass_clusters_def final_weight_def
      example_layers_def example_helpers_def)

text \<open>
  C7, amended.  A pass that raises nothing leaves the layers as they are exactly when the
  seed has at most one distinct normal over its loops (none, for a vertex without loops)
  and the cluster has at most one member.  Otherwise every member of the cluster has the
  weight UNWEIGHTED afterwards, every loop of every member holds the merged normal
  transformed for that loop (loops are told apart by their index), and nothing else
  changes: the influence of the faces, the weight of the other vertices, the normal of the
  other loops.
\<close>

theorem merge_pass_writes:
  assumes "merge_iteration H d cells snap L v_curr = Inr (L', mergeable, vn_local)"
  shows "\<exists>normal_count. v_curr_normal_count snap v_curr = Inr normal_count \<and>
    mergeable = mergeable_verts d cells v_curr \<and>
    merged_normal snap mergeable = Inr vn_local \<and>
    (normal_count \<le> 1 \<and> length mergeable \<le> 1 \<longrightarrow> L' = L) \<and>
    (1 < normal_count \<or> 1 < length mergeable \<longrightarrow>
       (\<forall>v \<in> set mergeable. vertex_normal_weight L' (vert_index v) = weight_value H UNWEIGHTED) \<and>
       (inj_on (loop_index :: bmloop \<Rightarrow> nat) (\<Union>v \<in> set mergeable. set (link_loops v)) \<longrightarrow>
          (\<forall>v \<in> set mergeable. \<forall>loop \<in> set (link_loops v).
             stored_loop_normal L' loop = loop_space_transform H loop vn_local False)) \<and>
       face_normal_influence L' = face_normal_influence L \<and>
       (\<forall>i. i \<notin> vert_index ` set mergeable \<longrightarrow>
          vertex_normal_weight L' i = vertex_normal_weight L i) \<and>
       (\<forall>loop :: bmloop. (\<forall>v \<in> set mergeable. loop_index loop \<notin> loop_index ` set (link_loops v)) \<longrightarrow>
          stored_loop_normal L' loop = stored_loop_normal L loop))"
proof -
  from assms obtain normal_count where count: "v_curr_normal_count snap v_curr = Inr normal_count"
    and cluster: "mergeable = mergeable_verts d cells v_curr"
    and normal: "merged_normal snap mergeable = Inr vn_local"
    and L': "L' = (if 1 < normal_count \<or> 1 < length mergeable
               then assign_merged H vn_local mergeable L else L)"
    by (rule merge_iterationE)
  have skip: "normal_count \<le> 1 \<and> length mergeable \<le> 1 \<longrightarrow> L' = L"
    by (auto simp: L')
  have writes: "1 < normal_count \<or> 1 < length mergeable \<longrightarrow>
       (\<forall>v \<in> set mergeable. vertex_normal_weight L' (vert_index v) = weight_value H UNWEIGHTED) \<and>
       (inj_on (loop_index :: bmloop \<Rightarrow> nat) (\<Union>v \<in> set mergeable. set (link_loops v)) \<longrightarrow>
          (\<forall>v \<in> set mergeable. \<forall>loop \<in> set (link_loops v).
             stored_loop_normal L' loop = loop_space_transform H loop vn_local False)) \<and>
       face_normal_influence L' = face_normal_influence L \<and>
       (\<forall>i. i \<notin> vert_index ` set mergeable \<longrightarrow>
          vertex_normal_weight L' i = vertex_normal_weight L i) \<and>
       (\<forall>loop :: bmloop. (\<forall>v \<in> set mergeable. loop_index loop \<notin> loop_index ` set (link_loops v)) \<longrightarrow>
          stored_loop_normal L' loop = stored_loop_normal L loop)"
  proof
    assume "1 < normal_count \<or> 1 < length mergeable"
    then have eq: "L' = assign_merged H vn_local mergeable L" by (simp add: L')
    have w: "\<forall>v \<in> set mergeable. vertex_normal_weight L' (vert_index v) = weight_value H UNWEIGHTED"
      by (simp add: eq assign_merged_weight)
    have n: "inj_on (loop_index :: bmloop \<Rightarrow> nat) (\<Union>v \<in> set mergeable. set (link_loops v)) \<longrightarrow>
          (\<forall>v \<in> set mergeable. \<forall>loop \<in> set (link_loops v).
             stored_loop_normal L' loop = loop_space_transform H loop vn_local False)"
    proof (intro impI ballI)
      fix v loop
      assume inj: "inj_on (loop_index :: bmloop \<Rightarrow> nat) (\<Union>v \<in> set mergeable. set (link_loops v))"
        and v: "v \<in> set mergeable" and loop: "loop \<in> set (link_loops v)"
      have "\<forall>u \<in> set mergeable. \<forall>l \<in> set (link_loops u). loop_index l = loop_index loop \<longrightarrow>
          loop_space_transform H l vn_local False = loop_space_transform H loop vn_local False"
      proof (intro ballI impI)
        fix u l assume "u \<in> set mergeable" "l \<in> set (link_loops u)" "loop_index l = loop_index loop"
        with inj v loop have "l = loop" by (auto dest!: inj_onD)
        then show "loop_space_transform H l vn_local False = loop_space_transform H loop vn_local False"
          by simp
      qed
      from assign_merged_stored [OF this] v loop
      show "stored_loop_normal L' loop = loop_space_transform H loop vn_local False"
        by (auto simp: eq)
    qed
    have f: "face_normal_influence L' = face_normal_influence L"
      by (simp add: eq assign_merged_influence)
    have ow: "\<forall>i. i \<notin> vert_index ` set mergeable \<longrightarrow>
          vertex_normal_weight L' i = vertex_normal_weight L i"
      by (simp add: eq assign_merged_weight)
    have ol: "\<forall>loop :: bmloop. (\<forall>v \<in> set mergeable. loop_index loop \<notin> loop_index ` set (link_loops v)) \<longrightarrow>
          stored_loop_normal L' loop = stored_loop_normal L loop"
    proof (intro allI impI)
      fix loop :: bmloop
      assume other: "\<forall>v \<in> set mergeable. loop_index loop \<notin> loop_index ` set (link_loops v)"
      have "\<forall>u \<in> set mergeable. \<forall>l \<in> set (link_loops u). loop_index l = loop_index loop \<longrightarrow>
          loop_space_transform H l vn_local False = loop_space_transform H loop vn_local False"
      proof (intro ballI impI)
        fix u l assume "u \<in> set mergeable" "l \<in> set (link_loops u)" "loop_index l = loop_index loop"
        with other have False by (metis imageI)
        then show "loop_space_transform H l vn_local False = loop_space_transform H loop vn_local False" ..
      qed
      from assign_merged_stored [OF this] other
      show "stored_loop_normal L' loop = stored_loop_normal L loop"
        by (simp add: eq)
    qed
    from w n f ow ol show "(\<forall>v \<in> set mergeable. vertex_normal_weight L' (vert_index v) = weight_value H UNWEIGHTED) \<and>
       (inj_on (loop_index :: bmloop \<Rightarrow> nat) (\<Union>v \<in> set mergeable. set (link_loops v)) \<longrightarrow>
          (\<forall>v \<in> set mergeable. \<forall>loop \<in> set (link_loops v).
             stored_loop_normal L' loop = loop_space_transform H loop vn_local False)) \<and>
       face_normal_influence L' = face_normal_influence L \<and>
       (\<forall>i. i \<notin> vert_index ` set mergeable \<longrightarrow>
          vertex_normal_weight L' i = vertex_normal_weight L i) \<and>
       (\<forall>loop :: bmloop. (\<forall>v \<in> set mergeable. loop_index loop \<notin> loop_index ` set (link_loops v)) \<longrightarrow>
          stored_loop_normal L' loop = stored_loop_normal L loop)"
      by blast
  qed
  from count cluster normal skip writes show ?thesis by blast
qed

theorem merge_pass_writes_witness:
  "\<exists>cells L'. build_cells (1 / 1000) Map.empty twin_bm = Inr cells \<and>
     merge_iteration example_helpers (1 / 1000) cells twin_loop_normals example_layers twin_v0 =
       Inr (L', [twin_v0, twin_v1], (1, 0, 0)) \<and>
     vertex_normal_weight L' 0 = 4 \<and> vertex_normal_weight L' 1 = 4 \<and>
     stored_loop_normal L' (example_loop 0 0 (1, 0, 0)) = (1, 0, 0) \<and>
     stored_loop_normal L' (example_loop 1 0 (1, 0, 0)) = (1, 0, 0)"
proof -
  obtain cells where cells: "build_cells (1 / 1000) Map.empty twin_bm = Inr cells"
    using build_cells_total [of "1 / 1000" Map.empty twin_bm] by auto
  define L' where "L' = assign_merged example_helpers (1, 0, 0) [twin_v0, twin_v1] example_layers"
  have it: "merge_iteration example_helpers (1 / 1000) cells twin_loop_normals example_layers
      twin_v0 = Inr (L', [twin_v0, twin_v1], (1, 0, 0))"
    by (simp add: twin_pass [OF cells] L'_def)
  have inj: "inj_on (loop_index :: bmloop \<Rightarrow> nat)
      (\<Union>v \<in> set [twin_v0, twin_v1]. set (link_loops v))"
    by (auto simp: twin_co example_loop_def)
  have len: "1 < length [twin_v0, twin_v1]" by simp
  from merge_pass_writes [OF it]
  have w: "\<forall>v \<in> set [twin_v0, twin_v1].
      vertex_normal_weight L' (vert_index v) = weight_value example_helpers UNWEIGHTED"
    by (elim exE conjE) (use len in blast)
  from merge_pass_writes [OF it]
  have "inj_on (loop_index :: bmloop \<Rightarrow> nat)
          (\<Union>v \<in> set [twin_v0, twin_v1]. set (link_loops v)) \<longrightarrow>
      (\<forall>v \<in> set [twin_v0, twin_v1]. \<forall>loop \<in> set (link_loops v).
         stored_loop_normal L' loop = loop_space_transform example_helpers loop (1, 0, 0) False)"
    by (elim exE conjE) (use len in blast)
  with inj have n: "\<forall>v \<in> set [twin_v0, twin_v1]. \<forall>loop \<in> set (link_loops v).
      stored_loop_normal L' loop = loop_space_transform example_helpers loop (1, 0, 0) False"
    by (rule rev_mp)
  from w have "vertex_normal_weight L' 0 = 4" "vertex_normal_weight L' 1 = 4"
    by (simp_all add: twin_co example_helpers_def)
  moreover from n have "stored_loop_normal L' (example_loop 0 0 (1, 0, 0)) = (1, 0, 0)"
    "stored_loop_normal L' (example_loop 1 0 (1, 0, 0)) = (1, 0, 0)"
    by (simp_all add: twin_co example_transform)
  ultimately show ?thesis using cells it by blast
qed

text \<open>
  C8, as stated, fails.  Of three selected vertices one unit apart on a line, merged at
  distance 1 with the first one popped first, the middle one is a member of the cluster
  of the first pass and of the cluster of the second pass.  It is assigned twice: its
  loop ends with the normal of the second cluster, the loop of the first vertex with the
  normal of the first.
\<close>

theorem merge_second_assignment_counterexample:
  "pass_clusters (merge_execute pick_first example_helpers 1 False line_bm line_loop_normals
     example_layers) = Inr [[0, 1], [1, 2]] \<and>
   final_loop_normal (merge_execute pick_first example_helpers 1 False line_bm line_loop_normals
     example_layers) (example_loop 0 0 (1, 0, 0)) = Inr (vec_normalize (1, 1, 0)) \<and>
   final_loop_normal (merge_execute pick_first example_helpers 1 False line_bm line_loop_normals
     example_layers) (example_loop 1 1 (0, 1, 0)) = Inr (vec_normalize (0, 1, 1))"
  by (simp add: line_run pass_clusters_def final_loop_normal_def line_vert_fields
      assign_merged_stored example_transform example_loop_index)

text \<open>
  C8, amended.  The loop over the pending set ends for every mesh and every way \<open>pick\<close> of
  popping: the model of the run is a total function, by the termination proof of
  \<open>merge_loop\<close>.  With a distance other than zero and a snapshot that holds three floats for
  each loop of the mesh it raises nothing.  A run that raises nothing makes at most as
  many passes as there are selected vertices; no vertex is the seed of two passes, a seed
  is a selected vertex of the mesh, a vertex of the cluster of a pass is not the seed of a
  later pass, and every selected vertex is the seed or a member of the cluster of some
  pass.  (A vertex can be a member of the clusters of several passes.)
\<close>

theorem merge_run_ends:
  "(d \<noteq> 0 \<and>
    (\<forall>v \<in> set bm. \<forall>loop \<in> set (link_loops v). loop_index loop * 3 + 3 \<le> length snap) \<longrightarrow>
      (\<exists>L' passes. merge_execute pick H d unselected bm snap L = Inr (L', passes))) \<and>
   (\<forall>L' passes. merge_execute pick H d unselected bm snap L = Inr (L', passes) \<longrightarrow>
      length passes \<le> length (remdups (filter select bm)) \<and>
      distinct (map fst passes) \<and>
      fst ` set passes \<subseteq> {v \<in> set bm. select v} \<and>
      (\<forall>ps p qs. passes = ps @ p # qs \<longrightarrow> (\<forall>q \<in> set qs. fst q \<notin> set (fst (snd p)))) \<and>
      (\<forall>v \<in> set bm. select v \<longrightarrow>
         (\<exists>p \<in> set passes. v = fst p \<or> v \<in> set (fst (snd p)))))"
proof (intro conjI impI allI)
  assume a: "d \<noteq> 0 \<and>
    (\<forall>v \<in> set bm. \<forall>loop \<in> set (link_loops v). loop_index loop * 3 + 3 \<le> length snap)"
  define vs where "vs = (if unselected then bm else remdups (filter select bm))"
  define pending where "pending = remdups (filter select bm)"
  from a have d: "d \<noteq> 0" by simp
  from build_cells_total [OF d] obtain cells
    where cells: "build_cells d Map.empty vs = Inr cells" by blast
  have vs: "\<forall>v \<in> set vs. \<forall>loop \<in> set (link_loops v). loop_index loop * 3 + 3 \<le> length snap"
    using a by (auto simp: vs_def)
  have pend: "\<forall>v \<in> set pending. \<forall>loop \<in> set (link_loops v). loop_index loop * 3 + 3 \<le> length snap"
    using a by (auto simp: pending_def)
  from merge_loop_total [OF d cells vs pend] obtain L' passes
    where run: "merge_loop pick H d cells snap L pending = Inr (L', passes)" by blast
  have "merge_execute pick H d unselected bm snap L = Inr (L', passes)"
    using cells run by (simp add: merge_execute_def vs_def pending_def)
  then show "\<exists>L' passes. merge_execute pick H d unselected bm snap L = Inr (L', passes)"
    by blast
next
  fix L' passes
  assume exec: "merge_execute pick H d unselected bm snap L = Inr (L', passes)"
  define pending where "pending = remdups (filter select bm)"
  obtain cells where
    run: "merge_loop pick H d cells snap L pending = Inr (L', passes)"
  proof (cases "build_cells d Map.empty (if unselected then bm else remdups (filter select bm))")
    case (Inl e)
    with exec show ?thesis by (simp add: merge_execute_def)
  next
    case (Inr cells)
    with exec have "merge_loop pick H d cells snap L pending = Inr (L', passes)"
      by (simp add: merge_execute_def pending_def)
    then show ?thesis by (rule that)
  qed
  have "distinct pending" "\<forall>v \<in> set pending. select v" by (simp_all add: pending_def)
  from merge_loop_passes [OF run this]
  have props: "length passes \<le> length pending" "distinct (map fst passes)"
    "fst ` set passes \<subseteq> set pending"
    "\<forall>ps p qs. passes = ps @ p # qs \<longrightarrow> (\<forall>q \<in> set qs. fst q \<notin> set (fst (snd p)))"
    "\<forall>v \<in> set pending. \<exists>p \<in> set passes. v = fst p \<or> v \<in> set (fst (snd p))"
    by blast+
  have set_pending: "set pending = {v \<in> set bm. select v}" by (auto simp: pending_def)
  from props(1) show "length passes \<le> length (remdups (filter select bm))"
    by (simp add: pending_def)
  from props(2) show "distinct (map fst passes)" .
  from props(3) show "fst ` set passes \<subseteq> {v \<in> set bm. select v}"
    by (simp only: set_pending)
  from props(4) show "\<And>ps p qs. passes = ps @ p # qs \<Longrightarrow>
      \<forall>q \<in> set qs. fst q \<notin> set (fst (snd p))"
    by blast
  from props(5) show "\<forall>v \<in> set bm. select v \<longrightarrow>
      (\<exists>p \<in> set passes. v = fst p \<or> v \<in> set (fst (snd p)))"
    by (simp add: set_pending)
qed

theorem merge_run_ends_witness:
  "(1::real) \<noteq> 0 \<and>
   (\<exists>L' passes. merge_execute pick_first example_helpers 1 False line_bm line_loop_normals
      example_layers = Inr (L', passes) \<and>
      length passes \<le> 3 \<and> distinct (map fst passes))"
proof -
  have d: "(1::real) \<noteq> 0" by simp
  have range: "\<forall>v \<in> set line_bm. \<forall>loop \<in> set (link_loops v).
      loop_index loop * 3 + 3 \<le> length line_loop_normals"
    by (simp add: line_bm_def line_vert_fields example_loop_index line_loop_normals_def)
  note ends = merge_run_ends [of 1 line_bm line_loop_normals pick_first example_helpers False
      example_layers]
  from ends [THEN conjunct1, THEN mp, OF conjI [OF d range]] obtain L' passes where
    run: "merge_execute pick_first example_helpers 1 False line_bm line_loop_normals
      example_layers = Inr (L', passes)"
    by (elim exE)
  note props = ends [THEN conjunct2, THEN spec, THEN spec, THEN mp, OF run]
  from props have "length passes \<le> length (remdups (filter select line_bm))"
    by (rule conjunct1)
  moreover from props have "distinct (map fst passes)"
    by (rule conjunct2 [THEN conjunct1])
  moreover have "length (remdups (filter select line_bm)) = 3"
    by (simp add: line_selected) (simp add: line_bm_def)
  ultimately show ?thesis using d run by auto
qed

text \<open>
  C9, as stated, fails.  On four selected vertices, popped in the order of the mesh, the
  run at distance 10 merges the vertices 1, 2 and 3 in one cluster.  The run at distance
  15 has the clusters of the vertices 0 and 1, of 2 and 1, and of 1 and 3: vertex 0 now
  reaches vertex 1 and takes it from the pending set, and the seeds 2 and 3 do not reach
  each other.  No cluster at distance 15 holds the vertices 2 and 3 together.
\<close>

theorem merge_monotonicity_counterexample:
  "pass_clusters (merge_execute pick_first example_helpers 10 False cross_bm []
     example_layers) = Inr [[0], [2, 1, 3]] \<and>
   pass_clusters (merge_execute pick_first example_helpers 15 False cross_bm []
     example_layers) = Inr [[0, 1], [2, 1], [1, 3]]"
  by (simp add: cross_run_10 cross_run_15)

text \<open>
  C9, amended.  For a fixed list of indexed vertices and a fixed seed \<open>v\<close>, the cluster the
  query gathers around \<open>v\<close> at a distance \<open>d > 0\<close> is contained in the cluster it gathers
  around \<open>v\<close> at any distance \<open>d' \<ge> d\<close>.  (Which vertices become seeds depends on the
  distance.)
\<close>

theorem cluster_of_seed_grows_with_distance:
  assumes "0 < d" "d \<le> d'"
  shows "\<exists>cells cells'. build_cells d Map.empty vs = Inr cells \<and>
    build_cells d' Map.empty vs = Inr cells' \<and>
    set (mergeable_verts d cells v) \<subseteq> set (mergeable_verts d' cells' v)"
proof -
  from assms have d': "0 < d'" by simp
  from assms(1) obtain cells where cells: "build_cells d Map.empty vs = Inr cells"
    using build_cells_total [of d Map.empty vs] by auto
  from d' obtain cells' where cells': "build_cells d' Map.empty vs = Inr cells'"
    using build_cells_total [of d' Map.empty vs] by auto
  from assms have "d ^ 2 \<le> d' ^ 2" by (simp add: power_mono)
  then have "set (mergeable_verts d cells v) \<subseteq> set (mergeable_verts d' cells' v)"
    unfolding set_mergeable_verts [OF assms(1) cells] set_mergeable_verts [OF d' cells']
    by auto
  with cells cells' show ?thesis by blast
qed

theorem cluster_of_seed_grows_with_distance_witness:
  "(0::real) < 10 \<and> (10::real) \<le> 15 \<and>
   (\<exists>cells cells'. build_cells 10 Map.empty cross_bm = Inr cells \<and>
      build_cells 15 Map.empty cross_bm = Inr cells' \<and>
      set (mergeable_verts 10 cells cross_v0) \<subseteq> set (mergeable_verts 15 cells' cross_v0))"
proof -
  have h: "(0::real) < 10" "(10::real) \<le> 15" by simp_all
  from cluster_of_seed_grows_with_distance [OF h, of cross_bm cross_v0] h
  show ?thesis by blast
qed

text \<open>
  C10.  In a run of the merge loop that raises nothing, the normal of every pass is the
  merged normal computed from the snapshot \<open>snap\<close> and the cluster of the pass, and the
  cluster is the query around the seed: neither reads the layers.  Started from any other
  layers \<open>M\<close>, layers written by earlier passes among them, the loop makes the same passes
  with the same seeds, clusters and normals, for every way \<open>pick\<close> of popping.
\<close>

theorem merged_normals_read_snapshot_only:
  assumes "merge_loop pick H d cells snap L pending = Inr (L', passes)"
  shows "(\<forall>p \<in> set passes. fst (snd p) = mergeable_verts d cells (fst p) \<and>
      merged_normal snap (fst (snd p)) = Inr (snd (snd p))) \<and>
    (\<forall>M. \<exists>M'. merge_loop pick H d cells snap M pending = Inr (M', passes))"
  using merge_loop_pass_values [OF assms] merge_loop_layers_free [OF assms] by blast

theorem merged_normals_read_snapshot_only_witness:
  "\<exists>cells L' M'. build_cells 1 Map.empty line_bm = Inr cells \<and>
     merge_loop pick_first example_helpers 1 cells line_loop_normals example_layers line_bm =
       Inr (L', [(line_v0, [line_v0, line_v1], vec_normalize (1, 1, 0)),
                 (line_v2, [line_v1, line_v2], vec_normalize (0, 1, 1))]) \<and>
     merged_normal line_loop_normals [line_v1, line_v2] = Inr (vec_normalize (0, 1, 1)) \<and>
     merge_loop pick_first example_helpers 1 cells line_loop_normals L' line_bm =
       Inr (M', [(line_v0, [line_v0, line_v1], vec_normalize (1, 1, 0)),
                 (line_v2, [line_v1, line_v2], vec_normalize (0, 1, 1))])"
proof -
  obtain cells where cells: "build_cells 1 Map.empty line_bm = Inr cells"
    using build_cells_total [of 1 Map.empty line_bm] by auto
  define passes where "passes = [(line_v0, [line_v0, line_v1], vec_normalize (1, 1, 0)),
    (line_v2, [line_v1, line_v2], vec_normalize (0, 1, 1))]"
  from line_passes [OF cells, of example_helpers example_layers] obtain L' where
    run: "merge_loop pick_first example_helpers 1 cells line_loop_normals example_layers line_bm
      = Inr (L', passes)"
    unfolding passes_def by blast
  from merged_normals_read_snapshot_only [OF run]
  have vals: "\<forall>p \<in> set passes. fst (snd p) = mergeable_verts 1 cells (fst p) \<and>
      merged_normal line_loop_normals (fst (snd p)) = Inr (snd (snd p))"
    and again: "\<forall>M. \<exists>M'. merge_loop pick_first example_helpers 1 cells line_loop_normals M
      line_bm = Inr (M', passes)"
    by blast+
  from vals have "\<forall>p \<in> set passes.
      merged_normal line_loop_normals (fst (snd p)) = Inr (snd (snd p))"
    by blast
  then have "merged_normal line_loop_normals [line_v1, line_v2] =
      Inr (vec_normalize (0, 1, 1))"
    by (simp add: passes_def)
  moreover from again obtain M' where
    "merge_loop pick_first example_helpers 1 cells line_loop_normals L' line_bm =
      Inr (M', passes)" by blast
  ultimately show ?thesis using cells run unfolding passes_def by blast
qed

end
